theory Spec2Isabelle
  imports Main "HOL-Library.AList" "HOL-Library.Product_Lexorder" "HOL-Library.Multiset"
begin

section \<open>Python strings\<close>

text \<open>
  A Python \<open>str\<close> is a sequence of Unicode code points. The extracted page text is
  arbitrary Unicode, and \<open>str.strip\<close> and \<open>str.splitlines\<close> look at code points beyond
  ASCII, so a string is modelled as the list of its code points.
\<close>

type_synonym pystr = "nat list"

definition py :: "string \<Rightarrow> pystr" where
  \<comment> \<open>an ASCII literal as a Python string\<close>
  "py s = map of_char s"

definition is_space :: "nat \<Rightarrow> bool" where
  \<comment> \<open>\<open>str.isspace\<close> on one code point: the characters \<open>str.strip()\<close> removes\<close>
  "is_space c \<longleftrightarrow>
     (9 \<le> c \<and> c \<le> 13) \<or> (28 \<le> c \<and> c \<le> 32) \<or> c = 133 \<or> c = 160 \<or> c = 5760 \<or>
     (8192 \<le> c \<and> c \<le> 8202) \<or> c = 8232 \<or> c = 8233 \<or> c = 8239 \<or> c = 8287 \<or>
     c = 12288"

definition is_linebreak :: "nat \<Rightarrow> bool" where
  \<comment> \<open>the line boundaries of \<open>str.splitlines\<close>\<close>
  "is_linebreak c \<longleftrightarrow>
     (10 \<le> c \<and> c \<le> 13) \<or> (28 \<le> c \<and> c \<le> 30) \<or> c = 133 \<or> c = 8232 \<or> c = 8233"

definition strip :: "pystr \<Rightarrow> pystr" where
  \<comment> \<open>\<open>s.strip()\<close>: leading, then trailing whitespace is dropped\<close>
  "strip s = rev (dropWhile is_space (rev (dropWhile is_space s)))"

fun splitlines_from :: "pystr \<Rightarrow> pystr \<Rightarrow> pystr list" where
  \<comment> \<open>the scan of \<open>s.splitlines()\<close>; the first argument is the current line, reversed.
      A line break closes the current line (CR LF counts once); the end of the string
      closes it only when it is non-empty.\<close>
  "splitlines_from cur [] = (if cur = [] then [] else [rev cur])"
| "splitlines_from cur (c # cs) =
     (if is_linebreak c then
        (case cs of
           d # ds \<Rightarrow>
             if c = 13 \<and> d = 10 then rev cur # splitlines_from [] ds
             else rev cur # splitlines_from [] cs
         | [] \<Rightarrow> rev cur # splitlines_from [] cs)
      else splitlines_from (c # cur) cs)"

definition splitlines :: "pystr \<Rightarrow> pystr list" where
  "splitlines s = splitlines_from [] s"

fun join :: "pystr \<Rightarrow> pystr list \<Rightarrow> pystr" where
  \<comment> \<open>\<open>sep.join(xs)\<close>\<close>
  "join sep [] = []"
| "join sep [x] = x"
| "join sep (x # y # ys) = x @ sep @ join sep (y # ys)"

definition slice :: "'a list \<Rightarrow> nat \<Rightarrow> nat \<Rightarrow> 'a list" where
  \<comment> \<open>\<open>xs[i:j]\<close> for non-negative \<open>i\<close>, \<open>j\<close>: never raises, clips at the end of the list\<close>
  "slice xs i j = take (j - i) (drop i xs)"

function str_int :: "nat \<Rightarrow> pystr" where
  \<comment> \<open>\<open>str(n)\<close> of a non-negative integer: its decimal digits\<close>
  "str_int n = (if n < 10 then [48 + n] else str_int (n div 10) @ [48 + n mod 10])"
  by pat_completeness auto
termination
  by (relation "measure id") auto

declare str_int.simps [simp del]

section \<open>Python dictionaries\<close>

text \<open>
  A \<open>dict\<close> keeps its keys in insertion order: it is an association list with pairwise
  different keys. \<open>d[k] = v\<close> is \<open>AList.update k v d\<close> (the value is replaced in place, a
  new key goes to the end), \<open>del d[k]\<close> is \<open>AList.delete k d\<close>.
\<close>

definition dict_get :: "('k \<times> 'v) list \<Rightarrow> 'k \<Rightarrow> 'v \<Rightarrow> 'v" where
  \<comment> \<open>\<open>d.get(k, default)\<close>\<close>
  "dict_get d k dflt = (case map_of d k of None \<Rightarrow> dflt | Some v \<Rightarrow> v)"

section \<open>The sequence aligner: \<open>difflib.SequenceMatcher(None, a, b).get_opcodes()\<close>\<close>

text \<open>
  The worker aligns two token lists with the standard library's \<open>SequenceMatcher\<close>,
  constructed with \<open>isjunk = None\<close> and the default \<open>autojunk = True\<close>. The definitions
  below follow \<open>difflib.py\<close> method by method. With \<open>isjunk = None\<close> the set \<open>bjunk\<close> is
  empty, so \<open>isbjunk\<close> is constantly false: the junk purge of \<open>__chain_b\<close> and the two
  junk loops at the end of \<open>find_longest_match\<close> do nothing and are left out.
  Indices are loop counters and list positions, hence natural numbers.
\<close>

type_synonym 'a b2j = "('a \<times> nat list) list"
type_synonym match = "nat \<times> nat \<times> nat"
type_synonym window = "nat \<times> nat \<times> nat \<times> nat"

subsection \<open>\<open>__chain_b\<close>\<close>

text \<open>
  \<^verbatim>\<open>
  for i, elt in enumerate(b):
      indices = b2j.setdefault(elt, [])
      indices.append(i)
  ...
  n = len(b)
  if self.autojunk and n >= 200:
      ntest = n // 100 + 1
      for elt, idxs in b2j.items():
          if len(idxs) > ntest:
              popular.add(elt)
      for elt in popular:
          del b2j[elt]
  \<close>
\<close>

definition chain_step :: "'a b2j \<Rightarrow> nat \<times> 'a \<Rightarrow> 'a b2j" where
  "chain_step b2j ie =
     (case ie of (i, elt) \<Rightarrow> AList.update elt (dict_get b2j elt [] @ [i]) b2j)"

definition popular_keys :: "'a b2j \<Rightarrow> nat \<Rightarrow> 'a list" where
  "popular_keys b2j ntest = map fst (filter (\<lambda>(elt, idxs). length idxs > ntest) b2j)"

definition chain_b :: "'a list \<Rightarrow> 'a b2j" where
  "chain_b b =
     (let b2j = foldl chain_step [] (enumerate 0 b);
          n = length b
      in if n \<ge> 200
         then foldl (\<lambda>d elt. AList.delete elt d) b2j (popular_keys b2j (n div 100 + 1))
         else b2j)"

subsection \<open>\<open>find_longest_match\<close>\<close>

text \<open>
  The inner loop over the positions \<open>j\<close> of \<open>a[i]\<close> in \<open>b\<close>:
  \<^verbatim>\<open>
  for j in b2j.get(a[i], nothing):
      if j < blo: continue
      if j >= bhi: break
      k = newj2len[j] = j2lenget(j-1, 0) + 1
      if k > bestsize:
          besti, bestj, bestsize = i-k+1, j-k+1, k
  \<close>
  For \<open>j = 0\<close> the key \<open>j-1\<close> is \<open>-1\<close>, which is never stored, so the default \<open>0\<close> is
  read. \<open>k\<close> never exceeds \<open>i + 1\<close> and \<open>j + 1\<close> (lemma \<open>scan_row_inv\<close>), so \<open>i-k+1\<close> is
  written \<open>i + 1 - k\<close>.
\<close>

definition j2lenget :: "(nat \<rightharpoonup> nat) \<Rightarrow> nat \<Rightarrow> nat" where
  \<comment> \<open>\<open>j2len.get(j-1, 0)\<close>\<close>
  "j2lenget j2len j =
     (if j = 0 then 0 else case j2len (j - 1) of None \<Rightarrow> 0 | Some v \<Rightarrow> v)"

fun scan_row ::
  "(nat \<rightharpoonup> nat) \<Rightarrow> nat \<Rightarrow> nat \<Rightarrow> nat \<Rightarrow> nat list \<Rightarrow> (nat \<rightharpoonup> nat) \<times> match
     \<Rightarrow> (nat \<rightharpoonup> nat) \<times> match" where
  "scan_row j2len i blo bhi [] st = st"
| "scan_row j2len i blo bhi (j # js) (newj2len, besti, bestj, bestsize) =
     (if j < blo then scan_row j2len i blo bhi js (newj2len, besti, bestj, bestsize)
      else if j \<ge> bhi then (newj2len, besti, bestj, bestsize)
      else
        (let k = j2lenget j2len j + 1 in
         if k > bestsize
         then scan_row j2len i blo bhi js (newj2len(j \<mapsto> k), i + 1 - k, j + 1 - k, k)
         else scan_row j2len i blo bhi js (newj2len(j \<mapsto> k), besti, bestj, bestsize)))"

definition row_step ::
  "'a list \<Rightarrow> 'a b2j \<Rightarrow> nat \<Rightarrow> nat \<Rightarrow> (nat \<rightharpoonup> nat) \<times> match \<Rightarrow> nat
     \<Rightarrow> (nat \<rightharpoonup> nat) \<times> match" where
  \<comment> \<open>one round of \<open>for i in range(alo, ahi)\<close>; it ends with \<open>j2len = newj2len\<close>\<close>
  "row_step a b2j blo bhi st i =
     (case st of (j2len, best) \<Rightarrow>
        scan_row j2len i blo bhi (dict_get b2j (a ! i) []) (Map.empty, best))"

function extend_left :: "'a list \<Rightarrow> 'a list \<Rightarrow> nat \<Rightarrow> nat \<Rightarrow> match \<Rightarrow> match" where
  \<comment> \<open>\<open>while besti > alo and bestj > blo and a[besti-1] == b[bestj-1]\<close>\<close>
  "extend_left a b alo blo (besti, bestj, bestsize) =
     (if besti > alo \<and> bestj > blo \<and> a ! (besti - 1) = b ! (bestj - 1)
      then extend_left a b alo blo (besti - 1, bestj - 1, bestsize + 1)
      else (besti, bestj, bestsize))"
  by pat_completeness auto
termination
  by (relation "measure (\<lambda>(a, b, alo, blo, besti, bestj, bestsize). besti)") auto

function extend_right :: "'a list \<Rightarrow> 'a list \<Rightarrow> nat \<Rightarrow> nat \<Rightarrow> match \<Rightarrow> match" where
  \<comment> \<open>\<open>while besti+bestsize < ahi and bestj+bestsize < bhi and
      a[besti+bestsize] == b[bestj+bestsize]\<close>\<close>
  "extend_right a b ahi bhi (besti, bestj, bestsize) =
     (if besti + bestsize < ahi \<and> bestj + bestsize < bhi \<and>
         a ! (besti + bestsize) = b ! (bestj + bestsize)
      then extend_right a b ahi bhi (besti, bestj, bestsize + 1)
      else (besti, bestj, bestsize))"
  by pat_completeness auto
termination
  by (relation "measure (\<lambda>(a, b, ahi, bhi, besti, bestj, bestsize). ahi - (besti + bestsize))")
    auto

declare extend_left.simps [simp del] extend_right.simps [simp del]

definition longest_junk_free :: "'a list \<Rightarrow> 'a b2j \<Rightarrow> nat \<Rightarrow> nat \<Rightarrow> nat \<Rightarrow> nat \<Rightarrow> match" where
  \<comment> \<open>the \<open>for i in range(alo, ahi)\<close> loop, started with \<open>j2len = {}\<close> and the best
      match \<open>(alo, blo, 0)\<close>\<close>
  "longest_junk_free a b2j alo ahi blo bhi =
     snd (foldl (row_step a b2j blo bhi) (Map.empty, (alo, blo, 0)) [alo..<ahi])"

definition find_longest_match ::
  "'a list \<Rightarrow> 'a list \<Rightarrow> 'a b2j \<Rightarrow> nat \<Rightarrow> nat \<Rightarrow> nat \<Rightarrow> nat \<Rightarrow> match" where
  "find_longest_match a b b2j alo ahi blo bhi =
     extend_right a b ahi bhi
       (extend_left a b alo blo (longest_junk_free a b2j alo ahi blo bhi))"

text \<open>
  Every list read of the method is guarded by its window: \<open>a[i]\<close> is read for
  \<open>alo \<le> i < ahi\<close>, \<open>a[besti-1]\<close> and \<open>b[bestj-1]\<close> under \<open>besti > alo\<close> and \<open>bestj > blo\<close>,
  \<open>a[besti+bestsize]\<close> and \<open>b[bestj+bestsize]\<close> under \<open>besti+bestsize < ahi\<close> and
  \<open>bestj+bestsize < bhi\<close>. \<open>get_matching_blocks\<close> starts from the window
  \<open>(0, len(a), 0, len(b))\<close> and only passes on windows inside the current one (lemma
  \<open>find_longest_match_ok\<close> below), so no read is out of range and the method has no
  \<open>IndexError\<close> branch.
\<close>

subsection \<open>The match returned lies in the window\<close>

definition j2len_ok :: "nat \<Rightarrow> nat \<Rightarrow> nat \<Rightarrow> nat \<Rightarrow> (nat \<rightharpoonup> nat) \<Rightarrow> bool" where
  "j2len_ok alo blo bhi i j2len \<longleftrightarrow>
     (\<forall>j v. j2len j = Some v \<longrightarrow> alo + v \<le> i \<and> blo + v \<le> j + 1 \<and> j < bhi)"

definition best_ok :: "nat \<Rightarrow> nat \<Rightarrow> nat \<Rightarrow> nat \<Rightarrow> match \<Rightarrow> bool" where
  "best_ok alo ahi blo bhi m \<longleftrightarrow>
     (case m of (i, j, k) \<Rightarrow>
        (k = 0 \<and> i = alo \<and> j = blo) \<or> (alo \<le> i \<and> i + k \<le> ahi \<and> blo \<le> j \<and> j + k \<le> bhi))"

lemma j2lenget_bound:
  assumes "j2len_ok alo blo bhi i j2len" "alo \<le> i" "blo \<le> j"
  shows "alo + j2lenget j2len j \<le> i \<and> blo + j2lenget j2len j \<le> j"
proof (cases "j = 0")
  case True
  with assms show ?thesis by (simp add: j2lenget_def)
next
  case False
  show ?thesis
  proof (cases "j2len (j - 1)")
    case None
    with False assms show ?thesis by (simp add: j2lenget_def)
  next
    case (Some v)
    with assms(1) have "alo + v \<le> i \<and> blo + v \<le> j - 1 + 1"
      unfolding j2len_ok_def by blast
    with False Some show ?thesis by (simp add: j2lenget_def)
  qed
qed

lemma scan_row_inv:
  assumes "j2len_ok alo blo bhi i j2len" "alo \<le> i"
    and "j2len_ok alo blo bhi (Suc i) new" "best_ok alo (Suc i) blo bhi best"
    and "scan_row j2len i blo bhi js (new, best) = (new', best')"
  shows "j2len_ok alo blo bhi (Suc i) new' \<and> best_ok alo (Suc i) blo bhi best'"
  using assms
proof (induction js arbitrary: new best)
  case Nil
  then show ?case by simp
next
  case (Cons j js)
  obtain bi bj bs where best: "best = (bi, bj, bs)" by (cases best)
  show ?case
  proof (cases "j < blo")
    case True
    with Cons show ?thesis by (simp add: best)
  next
    case lo: False
    show ?thesis
    proof (cases "j \<ge> bhi")
      case True
      with lo Cons.prems show ?thesis by (simp add: best)
    next
      case hi: False
      define k where "k = j2lenget j2len j + 1"
      from j2lenget_bound [OF Cons.prems(1,2), of j] lo
      have kb: "alo + k \<le> Suc i" "blo + k \<le> Suc j" by (simp_all add: k_def)
      have new_ok: "j2len_ok alo blo bhi (Suc i) (new(j \<mapsto> k))"
        using Cons.prems(3) kb hi by (auto simp: j2len_ok_def)
      have best_new: "best_ok alo (Suc i) blo bhi (i + 1 - k, j + 1 - k, k)"
        using kb hi by (auto simp: best_ok_def)
      show ?thesis
      proof (cases "k > bs")
        case True
        with lo hi Cons.prems(5)
        have "scan_row j2len i blo bhi js (new(j \<mapsto> k), i + 1 - k, j + 1 - k, k) = (new', best')"
          by (simp add: best k_def Let_def)
        from Cons.IH [OF Cons.prems(1,2) new_ok best_new this] show ?thesis .
      next
        case False
        with lo hi Cons.prems(5)
        have "scan_row j2len i blo bhi js (new(j \<mapsto> k), best) = (new', best')"
          by (simp add: best k_def Let_def)
        from Cons.IH [OF Cons.prems(1,2) new_ok Cons.prems(4) this] show ?thesis .
      qed
    qed
  qed
qed

lemma best_ok_mono: "best_ok alo n blo bhi m \<Longrightarrow> n \<le> n' \<Longrightarrow> best_ok alo n' blo bhi m"
  by (auto simp: best_ok_def)

lemma rows_inv:
  "alo \<le> n \<Longrightarrow>
   foldl (row_step a b2j blo bhi) (Map.empty, (alo, blo, 0)) [alo..<n] = (j2len, best) \<Longrightarrow>
   j2len_ok alo blo bhi n j2len \<and> best_ok alo n blo bhi best"
proof (induction n arbitrary: j2len best)
  case 0
  then show ?case by (auto simp: j2len_ok_def best_ok_def)
next
  case (Suc n)
  show ?case
  proof (cases "alo \<le> n")
    case False
    with Suc.prems have "alo = Suc n" by simp
    with Suc.prems show ?thesis by (auto simp: j2len_ok_def best_ok_def)
  next
    case True
    obtain j0 b0 where st: "foldl (row_step a b2j blo bhi) (Map.empty, (alo, blo, 0)) [alo..<n] = (j0, b0)"
      by (cases "foldl (row_step a b2j blo bhi) (Map.empty, (alo, blo, 0)) [alo..<n]")
    from Suc.IH [OF True st] have ih: "j2len_ok alo blo bhi n j0" "best_ok alo n blo bhi b0" by simp_all
    from Suc.prems True
    have "row_step a b2j blo bhi (foldl (row_step a b2j blo bhi) (Map.empty, (alo, blo, 0)) [alo..<n]) n
          = (j2len, best)"
      by simp
    then have step: "scan_row j0 n blo bhi (dict_get b2j (a ! n) []) (Map.empty, b0) = (j2len, best)"
      unfolding st by (simp add: row_step_def)
    have e: "j2len_ok alo blo bhi (Suc n) Map.empty" by (simp add: j2len_ok_def)
    from scan_row_inv [OF ih(1) True e best_ok_mono [OF ih(2)] step] show ?thesis by simp
  qed
qed

lemma longest_junk_free_ok:
  "best_ok alo ahi blo bhi (longest_junk_free a b2j alo ahi blo bhi)"
proof (cases "alo \<le> ahi")
  case True
  obtain j2len best where st:
    "foldl (row_step a b2j blo bhi) (Map.empty, (alo, blo, 0)) [alo..<ahi] = (j2len, best)"
    by (cases "foldl (row_step a b2j blo bhi) (Map.empty, (alo, blo, 0)) [alo..<ahi]")
  from rows_inv [OF True st] st show ?thesis by (simp add: longest_junk_free_def)
next
  case False
  then show ?thesis by (simp add: longest_junk_free_def best_ok_def)
qed

lemma extend_left_step:
  "besti > alo \<and> bestj > blo \<and> a ! (besti - 1) = b ! (bestj - 1) \<Longrightarrow>
   extend_left a b alo blo (besti, bestj, bestsize) =
   extend_left a b alo blo (besti - 1, bestj - 1, bestsize + 1)"
  by (subst extend_left.simps) simp

lemma extend_left_stop:
  "\<not> (besti > alo \<and> bestj > blo \<and> a ! (besti - 1) = b ! (bestj - 1)) \<Longrightarrow>
   extend_left a b alo blo (besti, bestj, bestsize) = (besti, bestj, bestsize)"
  by (subst extend_left.simps) auto

lemma extend_right_step:
  "besti + bestsize < ahi \<and> bestj + bestsize < bhi \<and>
   a ! (besti + bestsize) = b ! (bestj + bestsize) \<Longrightarrow>
   extend_right a b ahi bhi (besti, bestj, bestsize) =
   extend_right a b ahi bhi (besti, bestj, bestsize + 1)"
  by (subst extend_right.simps) simp

lemma extend_right_stop:
  "\<not> (besti + bestsize < ahi \<and> bestj + bestsize < bhi \<and>
      a ! (besti + bestsize) = b ! (bestj + bestsize)) \<Longrightarrow>
   extend_right a b ahi bhi (besti, bestj, bestsize) = (besti, bestj, bestsize)"
  by (subst extend_right.simps) auto

lemma extend_left_ok:
  "best_ok alo ahi blo bhi m \<Longrightarrow> best_ok alo ahi blo bhi (extend_left a b alo blo m)"
proof (induction a b alo blo m rule: extend_left.induct)
  case (1 a b alo blo besti bestj bestsize)
  show ?case
  proof (cases "besti > alo \<and> bestj > blo \<and> a ! (besti - 1) = b ! (bestj - 1)")
    case True
    have "best_ok alo ahi blo bhi (besti - 1, bestj - 1, bestsize + 1)"
      using "1.prems" True by (auto simp: best_ok_def)
    from "1.IH" [OF True this] show ?thesis
      by (simp only: extend_left_step [OF True])
  next
    case False
    with "1.prems" show ?thesis by (simp only: extend_left_stop [OF False])
  qed
qed

lemma extend_right_ok:
  "best_ok alo ahi blo bhi m \<Longrightarrow> best_ok alo ahi blo bhi (extend_right a b ahi bhi m)"
proof (induction a b ahi bhi m rule: extend_right.induct)
  case (1 a b ahi bhi besti bestj bestsize)
  show ?case
  proof (cases "besti + bestsize < ahi \<and> bestj + bestsize < bhi \<and>
         a ! (besti + bestsize) = b ! (bestj + bestsize)")
    case True
    have "best_ok alo ahi blo bhi (besti, bestj, bestsize + 1)"
      using "1.prems" True by (auto simp: best_ok_def)
    from "1.IH" [OF True this] show ?thesis
      by (simp only: extend_right_step [OF True])
  next
    case False
    with "1.prems" show ?thesis by (simp only: extend_right_stop [OF False])
  qed
qed

lemma find_longest_match_ok:
  "best_ok alo ahi blo bhi (find_longest_match a b b2j alo ahi blo bhi)"
  unfolding find_longest_match_def
  by (intro extend_right_ok extend_left_ok longest_junk_free_ok)

subsection \<open>\<open>get_matching_blocks\<close>\<close>

text \<open>
  \<^verbatim>\<open>
  queue = [(0, la, 0, lb)]
  matching_blocks = []
  while queue:
      alo, ahi, blo, bhi = queue.pop()
      i, j, k = x = self.find_longest_match(alo, ahi, blo, bhi)
      if k:
          matching_blocks.append(x)
          if alo < i and blo < j:
              queue.append((alo, i, blo, j))
          if i+k < ahi and j+k < bhi:
              queue.append((i+k, ahi, j+k, bhi))
  matching_blocks.sort()
  \<close>
  \<open>queue.pop()\<close> takes the last element of the list. The loop ends because every round
  replaces a window by at most two windows inside it that leave out the match found.
\<close>

definition window_weight :: "window \<Rightarrow> nat" where
  "window_weight w = (case w of (alo, ahi, blo, bhi) \<Rightarrow> (ahi - alo) + (bhi - blo) + 1)"

function match_loop ::
  "'a list \<Rightarrow> 'a list \<Rightarrow> 'a b2j \<Rightarrow> window list \<Rightarrow> match list \<Rightarrow> match list" where
  "match_loop a b b2j queue matching_blocks =
     (if queue = [] then matching_blocks
      else
        (case last queue of (alo, ahi, blo, bhi) \<Rightarrow>
          (case find_longest_match a b b2j alo ahi blo bhi of (i, j, k) \<Rightarrow>
             if k \<noteq> 0 then
               match_loop a b b2j
                 (butlast queue @
                  (if alo < i \<and> blo < j then [(alo, i, blo, j)] else []) @
                  (if i + k < ahi \<and> j + k < bhi then [(i + k, ahi, j + k, bhi)] else []))
                 (matching_blocks @ [(i, j, k)])
             else match_loop a b b2j (butlast queue) matching_blocks)))"
  by pat_completeness auto
termination
proof (relation "measure (\<lambda>(a, b, b2j, queue, mbs). sum_list (map window_weight queue))",
    goal_cases)
  case 1
  show ?case by simp
next
  case (2 a b b2j queue mbs alo y ahi ya blo bhi i yc j k)
  from 2(1) have q: "queue = butlast queue @ [last queue]" by simp
  from 2 have lq: "last queue = (alo, ahi, blo, bhi)" by simp
  have w: "window_weight (last queue) = (ahi - alo) + (bhi - blo) + 1"
    by (simp add: lq window_weight_def)
  from 2 have f: "find_longest_match a b b2j alo ahi blo bhi = (i, j, k)" by simp
  have "best_ok alo ahi blo bhi (i, j, k)"
    using find_longest_match_ok [of alo ahi blo bhi a b b2j] by (simp add: f)
  with 2(7) have b: "alo \<le> i" "i + k \<le> ahi" "blo \<le> j" "j + k \<le> bhi" "k \<noteq> 0"
    by (auto simp: best_ok_def)
  have "sum_list (map window_weight
          ((if alo < i \<and> blo < j then [(alo, i, blo, j)] else []) @
           (if i + k < ahi \<and> j + k < bhi then [(i + k, ahi, j + k, bhi)] else [])))
        < (ahi - alo) + (bhi - blo) + 1"
    using b by (auto simp: window_weight_def)
  then have "sum_list (map window_weight
          ((if alo < i \<and> blo < j then [(alo, i, blo, j)] else []) @
           (if i + k < ahi \<and> j + k < bhi then [(i + k, ahi, j + k, bhi)] else [])))
        < window_weight (last queue)"
    by (simp only: w)
  then show ?case
    by (subst (2) q) (simp del: append_butlast_last_id)
next
  case (3 a b b2j queue mbs alo y ahi ya blo bhi i yc j k)
  from 3(1) have q: "queue = butlast queue @ [last queue]" by simp
  show ?case
    by (subst (2) q) (simp add: window_weight_def split: prod.splits del: append_butlast_last_id)
qed

declare match_loop.simps [simp del]

text \<open>
  \<^verbatim>\<open>
  i1 = j1 = k1 = 0
  non_adjacent = []
  for i2, j2, k2 in matching_blocks:
      if i1 + k1 == i2 and j1 + k1 == j2:
          k1 += k2
      else:
          if k1:
              non_adjacent.append((i1, j1, k1))
          i1, j1, k1 = i2, j2, k2
  if k1:
      non_adjacent.append((i1, j1, k1))
  non_adjacent.append( (la, lb, 0) )
  \<close>
  Matches are triples of integers, which \<open>list.sort\<close> orders lexicographically.
\<close>

definition collapse_step :: "match \<times> match list \<Rightarrow> match \<Rightarrow> match \<times> match list" where
  "collapse_step st m =
     (case st of ((i1, j1, k1), non_adjacent) \<Rightarrow>
        (case m of (i2, j2, k2) \<Rightarrow>
           if i1 + k1 = i2 \<and> j1 + k1 = j2 then ((i1, j1, k1 + k2), non_adjacent)
           else ((i2, j2, k2),
                 if k1 \<noteq> 0 then non_adjacent @ [(i1, j1, k1)] else non_adjacent)))"

definition collapse :: "match list \<Rightarrow> match list" where
  "collapse matching_blocks =
     (case foldl collapse_step ((0, 0, 0), []) matching_blocks of
        ((i1, j1, k1), non_adjacent) \<Rightarrow>
          if k1 \<noteq> 0 then non_adjacent @ [(i1, j1, k1)] else non_adjacent)"

definition get_matching_blocks :: "'a list \<Rightarrow> 'a list \<Rightarrow> match list" where
  "get_matching_blocks a b =
     (let la = length a; lb = length b;
          matching_blocks = sort (match_loop a b (chain_b b) [(0, la, 0, lb)] [])
      in collapse matching_blocks @ [(la, lb, 0)])"

subsection \<open>\<open>get_opcodes\<close>\<close>

text \<open>
  \<^verbatim>\<open>
  i = j = 0
  self.opcodes = answer = []
  for ai, bj, size in self.get_matching_blocks():
      tag = ''
      if i < ai and j < bj:
          tag = 'replace'
      elif i < ai:
          tag = 'delete'
      elif j < bj:
          tag = 'insert'
      if tag:
          answer.append( (tag, i, ai, j, bj) )
      i, j = ai+size, bj+size
      if size:
          answer.append( ('equal', ai, i, bj, j) )
  return answer
  \<close>
\<close>

datatype tag = Replace | Delete | Insert | Equal

type_synonym opcode = "tag \<times> nat \<times> nat \<times> nat \<times> nat"

definition opcode_step :: "nat \<times> nat \<times> opcode list \<Rightarrow> match \<Rightarrow> nat \<times> nat \<times> opcode list" where
  "opcode_step st m =
     (case st of (i, j, answer) \<Rightarrow>
        (case m of (ai, bj, sz) \<Rightarrow>
           (let answer1 =
                  (if i < ai \<and> j < bj then answer @ [(Replace, i, ai, j, bj)]
                   else if i < ai then answer @ [(Delete, i, ai, j, bj)]
                   else if j < bj then answer @ [(Insert, i, ai, j, bj)]
                   else answer)
            in (ai + sz, bj + sz,
                if sz \<noteq> 0 then answer1 @ [(Equal, ai, ai + sz, bj, bj + sz)] else answer1))))"

definition get_opcodes :: "'a list \<Rightarrow> 'a list \<Rightarrow> opcode list" where
  "get_opcodes a b = snd (snd (foldl opcode_step (0, 0, []) (get_matching_blocks a b)))"

section \<open>The change report (worker.py, COMPARE\_PDF branch)\<close>

datatype change_type = Add | Remove

record change =
  page :: nat
  ctype :: change_type
  ctext :: pystr

record report =
  changes :: "change list"
  total :: nat
  by_page :: "(pystr \<times> nat) list"

text \<open>
  \<^verbatim>\<open>
  report = {"changes": changes, "summary": {"total": len(changes), "by_page": {}}}
  for c in changes:
      p = str(c["page"])
      report["summary"]["by_page"][p] = report["summary"]["by_page"].get(p, 0) + 1
  \<close>
  The keys of \<open>by_page\<close> appear in the JSON report in insertion order.
\<close>

definition count_page :: "(pystr \<times> nat) list \<Rightarrow> change \<Rightarrow> (pystr \<times> nat) list" where
  "count_page bp c =
     (let p = str_int (page c) in AList.update p (dict_get bp p 0 + 1) bp)"

definition build_report :: "change list \<Rightarrow> report" where
  "build_report cs =
     \<lparr>changes = cs, total = length cs, by_page = foldl count_page [] cs\<rparr>"

section \<open>The line diff (worker.py, COMPARE\_PDF branch)\<close>

text \<open>
  \<^verbatim>\<open>
  def extract_text_per_page(pdf_path):
      with pdfplumber.open(pdf_path) as pdf:
          return [(page.extract_text() or "").strip() for page in pdf.pages]
  \<close>
  \<open>page.extract_text()\<close> is the extraction collaborator's answer for one page: a string
  or \<open>None\<close>.
\<close>

definition raw_text :: "pystr option \<Rightarrow> pystr" where
  \<comment> \<open>\<open>page.extract_text() or ""\<close>\<close>
  "raw_text t = (case t of None \<Rightarrow> [] | Some s \<Rightarrow> s)"

definition extract_text_per_page :: "pystr option list \<Rightarrow> pystr list" where
  "extract_text_per_page pdf = map (\<lambda>page. strip (raw_text page)) pdf"

text \<open>
  \<^verbatim>\<open>
  for tag, i1, i2, j1, j2 in matcher.get_opcodes():
      if tag == "replace":
          old_blob = "\n".join(lines1[i1:i2])
          new_blob = "\n".join(lines2[j1:j2])
          if old_blob.strip():
              changes.append({"page": page_num, "type": "remove", "text": old_blob})
          if new_blob.strip():
              changes.append({"page": page_num, "type": "add", "text": new_blob})
      elif tag == "delete":
          blob = "\n".join(lines1[i1:i2])
          if blob.strip():
              changes.append({"page": page_num, "type": "remove", "text": blob})
      elif tag == "insert":
          blob = "\n".join(lines2[j1:j2])
          if blob.strip():
              changes.append({"page": page_num, "type": "add", "text": blob})
  \<close>
\<close>

definition append_change :: "change list \<Rightarrow> nat \<Rightarrow> change_type \<Rightarrow> pystr \<Rightarrow> change list" where
  \<comment> \<open>\<open>if blob.strip(): changes.append({...})\<close>\<close>
  "append_change chgs page_num ty blob =
     (if strip blob \<noteq> [] then chgs @ [\<lparr>page = page_num, ctype = ty, ctext = blob\<rparr>]
      else chgs)"

definition line_opcode_step ::
  "nat \<Rightarrow> pystr list \<Rightarrow> pystr list \<Rightarrow> change list \<Rightarrow> opcode \<Rightarrow> change list" where
  "line_opcode_step page_num lines1 lines2 chgs opc =
     (case opc of (tag, i1, i2, j1, j2) \<Rightarrow>
        (case tag of
           Replace \<Rightarrow>
             (let old_blob = join [10] (slice lines1 i1 i2);
                  new_blob = join [10] (slice lines2 j1 j2)
              in append_change (append_change chgs page_num Remove old_blob)
                   page_num Add new_blob)
         | Delete \<Rightarrow> append_change chgs page_num Remove (join [10] (slice lines1 i1 i2))
         | Insert \<Rightarrow> append_change chgs page_num Add (join [10] (slice lines2 j1 j2))
         | Equal \<Rightarrow> chgs))"

text \<open>
  \<^verbatim>\<open>
  max_pages = max(len(texts1), len(texts2))
  changes = []
  for i in range(max_pages):
      page_num = i + 1
      t1 = texts1[i] if i < len(texts1) else ""
      t2 = texts2[i] if i < len(texts2) else ""
      lines1 = t1.splitlines() if t1 else []
      lines2 = t2.splitlines() if t2 else []
      matcher = difflib.SequenceMatcher(None, lines1, lines2)
      for tag, i1, i2, j1, j2 in matcher.get_opcodes(): ...
  \<close>
\<close>

definition text_at :: "pystr list \<Rightarrow> nat \<Rightarrow> pystr" where
  \<comment> \<open>\<open>texts[i] if i < len(texts) else ""\<close>\<close>
  "text_at texts i = (if i < length texts then texts ! i else [])"

definition lines_of :: "pystr \<Rightarrow> pystr list" where
  \<comment> \<open>\<open>t.splitlines() if t else []\<close>\<close>
  "lines_of t = (if t \<noteq> [] then splitlines t else [])"

definition line_page_step :: "pystr list \<Rightarrow> pystr list \<Rightarrow> change list \<Rightarrow> nat \<Rightarrow> change list" where
  "line_page_step texts1 texts2 chgs i =
     (let page_num = i + 1;
          lines1 = lines_of (text_at texts1 i);
          lines2 = lines_of (text_at texts2 i)
      in foldl (line_opcode_step page_num lines1 lines2) chgs (get_opcodes lines1 lines2))"

definition line_diff :: "pystr list \<Rightarrow> pystr list \<Rightarrow> change list" where
  "line_diff texts1 texts2 =
     foldl (line_page_step texts1 texts2) [] [0..<max (length texts1) (length texts2)]"

section \<open>The word diff (worker.py, COMPARE\_PDF branch)\<close>

text \<open>
  A word of \<open>page.extract_words()\<close> is a dictionary with the keys \<open>text\<close>, \<open>x0\<close>, \<open>top\<close>,
  \<open>x1\<close> and \<open>bottom\<close>. The text is read with \<open>w.get("text", "")\<close>, so it may be absent;
  the coordinates are carried along and never computed with, so their type is left
  open (the model's value is the one \<open>float(w["x0"])\<close> returns).
\<close>

record 'c word =
  wtext :: "pystr option"
  x0 :: 'c
  top :: 'c
  x1 :: 'c
  bottom :: 'c

type_synonym 'c bbox = "'c \<times> 'c \<times> 'c \<times> 'c"

record 'c highlights =
  red :: "'c bbox list"
  green :: "'c bbox list"

definition rect :: "'c word \<Rightarrow> 'c bbox" where
  \<comment> \<open>\<open>r = (float(w["x0"]), float(w["top"]), float(w["x1"]), float(w["bottom"]))\<close>\<close>
  "rect w = (x0 w, top w, x1 w, bottom w)"

definition word_text :: "'c word \<Rightarrow> pystr" where
  \<comment> \<open>\<open>w.get("text", "")\<close>\<close>
  "word_text w = (case wtext w of None \<Rightarrow> [] | Some s \<Rightarrow> s)"

definition words_at :: "'c word list list \<Rightarrow> nat \<Rightarrow> 'c word list" where
  \<comment> \<open>\<open>(page.extract_words() or []) if page else []\<close>, where
      \<open>page = pdf.pages[i] if i < len(pdf.pages) else None\<close>\<close>
  "words_at pdf i = (if i < length pdf then pdf ! i else [])"

definition append_red :: "nat \<Rightarrow> 'c word list \<Rightarrow> 'c highlights list \<Rightarrow> nat \<Rightarrow> 'c highlights list" where
  \<comment> \<open>\<open>left_highlights[i]["red"].append(r)\<close> for the word \<open>words_left[k]\<close>\<close>
  "append_red i words_left hl k =
     hl[i := (hl ! i)\<lparr>red := red (hl ! i) @ [rect (words_left ! k)]\<rparr>]"

definition append_green :: "nat \<Rightarrow> 'c word list \<Rightarrow> 'c highlights list \<Rightarrow> nat \<Rightarrow> 'c highlights list" where
  \<comment> \<open>\<open>right_highlights[i]["green"].append(r)\<close> for the word \<open>words_right[k]\<close>\<close>
  "append_green i words_right hl k =
     hl[i := (hl ! i)\<lparr>green := green (hl ! i) @ [rect (words_right ! k)]\<rparr>]"

text \<open>
  \<^verbatim>\<open>
  for tag, i1, i2, j1, j2 in matcher.get_opcodes():
      if tag in ("delete", "replace") and i1 < i2:
          for k in range(i1, i2):
              w = words_left[k]
              r = (float(w["x0"]), float(w["top"]), float(w["x1"]), float(w["bottom"]))
              left_highlights[i]["red"].append(r)
      if tag in ("insert", "replace") and j1 < j2:
          for k in range(j1, j2):
              w = words_right[k]
              r = (...)
              right_highlights[i]["green"].append(r)
  \<close>
\<close>

definition word_opcode_step ::
  "nat \<Rightarrow> 'c word list \<Rightarrow> 'c word list \<Rightarrow> 'c highlights list \<times> 'c highlights list \<Rightarrow> opcode
     \<Rightarrow> 'c highlights list \<times> 'c highlights list" where
  "word_opcode_step i words_left words_right hls opc =
     (case hls of (left_highlights, right_highlights) \<Rightarrow>
        (case opc of (tag, i1, i2, j1, j2) \<Rightarrow>
           (if (tag = Delete \<or> tag = Replace) \<and> i1 < i2
            then foldl (append_red i words_left) left_highlights [i1..<i2]
            else left_highlights,
            if (tag = Insert \<or> tag = Replace) \<and> j1 < j2
            then foldl (append_green i words_right) right_highlights [j1..<j2]
            else right_highlights)))"

text \<open>
  \<^verbatim>\<open>
  left_highlights = [{"red": [], "green": []} for _ in range(max_pages)]
  right_highlights = [{"red": [], "green": []} for _ in range(max_pages)]
  for i in range(max_pages):
      ...
      words_left = (page1.extract_words() or []) if page1 else []
      words_right = (page2.extract_words() or []) if page2 else []
      texts_left = [w.get("text", "") for w in words_left]
      texts_right = [w.get("text", "") for w in words_right]
      matcher = difflib.SequenceMatcher(None, texts_left, texts_right)
      for tag, i1, i2, j1, j2 in matcher.get_opcodes(): ...
  \<close>
  A document is given by the word lists of its pages; \<open>max_pages\<close> is the larger of the
  two page counts.
\<close>

definition word_page_step ::
  "'c word list list \<Rightarrow> 'c word list list \<Rightarrow> 'c highlights list \<times> 'c highlights list \<Rightarrow> nat
     \<Rightarrow> 'c highlights list \<times> 'c highlights list" where
  "word_page_step pdf1 pdf2 hls i =
     (let words_left = words_at pdf1 i;
          words_right = words_at pdf2 i;
          texts_left = map word_text words_left;
          texts_right = map word_text words_right
      in foldl (word_opcode_step i words_left words_right) hls
           (get_opcodes texts_left texts_right))"

definition word_diff ::
  "'c word list list \<Rightarrow> 'c word list list \<Rightarrow> 'c highlights list \<times> 'c highlights list" where
  "word_diff pdf1 pdf2 =
     (let max_pages = max (length pdf1) (length pdf2);
          left_highlights = replicate max_pages \<lparr>red = [], green = []\<rparr>;
          right_highlights = replicate max_pages \<lparr>red = [], green = []\<rparr>
      in foldl (word_page_step pdf1 pdf2) (left_highlights, right_highlights) [0..<max_pages])"

section \<open>Properties of the report\<close>

subsection \<open>Decimal rendering is injective\<close>

definition digits_value :: "pystr \<Rightarrow> nat" where
  "digits_value s = foldl (\<lambda>acc d. 10 * acc + (d - 48)) 0 s"

lemma digits_value_str_int: "digits_value (str_int n) = n"
proof (induction n rule: str_int.induct)
  case (1 n)
  show ?case
  proof (cases "n < 10")
    case True
    then show ?thesis
      by (simp add: str_int.simps [of n] digits_value_def)
  next
    case False
    with "1" have "digits_value (str_int (n div 10)) = n div 10"
      by simp
    with False show ?thesis
      by (simp add: str_int.simps [of n] digits_value_def)
  qed
qed

lemma str_int_inject: "str_int m = str_int n \<longleftrightarrow> m = n"
  by (metis digits_value_str_int)

subsection \<open>The per-page counters\<close>

lemma distinct_count_page:
  "distinct (map fst bp) \<Longrightarrow> distinct (map fst (count_page bp c))"
  by (simp add: count_page_def Let_def distinct_update)

lemma map_of_count_page:
  "map_of (count_page bp c) k =
     (if k = str_int (page c) then Some (dict_get bp k 0 + 1) else map_of bp k)"
  by (simp add: count_page_def Let_def update_conv')

lemma sum_update:
  fixes al :: "('k \<times> nat) list"
  shows "distinct (map fst al) \<Longrightarrow>
   sum_list (map snd (AList.update k (dict_get al k 0 + 1) al)) = sum_list (map snd al) + 1"
proof (induction al)
  case Nil
  then show ?case by (simp add: dict_get_def)
next
  case (Cons p al)
  obtain k' v' where p: "p = (k', v')" by (cases p)
  show ?case
  proof (cases "k' = k")
    case True
    then show ?thesis by (simp add: p dict_get_def)
  next
    case False
    have "dict_get (p # al) k 0 = dict_get al k 0"
      using False by (simp add: p dict_get_def)
    with False Cons show ?thesis by (simp add: p)
  qed
qed

lemma foldl_count_page:
  "distinct (map fst bp) \<Longrightarrow>
   distinct (map fst (foldl count_page bp cs)) \<and>
   sum_list (map snd (foldl count_page bp cs)) = sum_list (map snd bp) + length cs \<and>
   (\<forall>n. dict_get (foldl count_page bp cs) (str_int n) 0 =
         dict_get bp (str_int n) 0 + length (filter (\<lambda>c. page c = n) cs))"
proof (induction cs arbitrary: bp)
  case Nil
  then show ?case by simp
next
  case (Cons c cs)
  have d: "distinct (map fst (count_page bp c))"
    using Cons.prems by (rule distinct_count_page)
  have s: "sum_list (map snd (count_page bp c)) = sum_list (map snd bp) + 1"
    using sum_update [OF Cons.prems] by (simp add: count_page_def Let_def)
  have g: "dict_get (count_page bp c) (str_int n) 0 =
           dict_get bp (str_int n) 0 + (if page c = n then 1 else 0)" for n
    by (simp add: dict_get_def map_of_count_page str_int_inject)
  from Cons.IH [OF d] s g show ?case by simp
qed

lemma by_page_key_present:
  "map_of (foldl count_page bp cs) k = None \<longleftrightarrow>
   map_of bp k = None \<and> k \<notin> (\<lambda>c. str_int (page c)) ` set cs"
  by (induction cs arbitrary: bp) (auto simp: map_of_count_page)

text \<open>
  C6. The report is a pure aggregation of the change list: the list is kept as it is,
  \<open>total\<close> is its length, the counter stored under \<open>str(n)\<close> is the number of changes on
  page \<open>n\<close> (a page without changes has no key), the keys are pairwise different, and the
  counters add up to \<open>total\<close>.
\<close>

theorem report_summary_consistent:
  "changes (build_report cs) = cs \<and>
   total (build_report cs) = length cs \<and>
   distinct (map fst (by_page (build_report cs))) \<and>
   sum_list (map snd (by_page (build_report cs))) = total (build_report cs) \<and>
   (\<forall>n. map_of (by_page (build_report cs)) (str_int n) =
         (if filter (\<lambda>c. page c = n) cs = [] then None
          else Some (length (filter (\<lambda>c. page c = n) cs))))"
proof -
  have d: "distinct (map fst ([] :: (pystr \<times> nat) list))" by simp
  note f = foldl_count_page [OF d, of cs]
  have k: "map_of (foldl count_page [] cs) (str_int n) =
           (if filter (\<lambda>c. page c = n) cs = [] then None
            else Some (length (filter (\<lambda>c. page c = n) cs)))" for n
  proof (cases "filter (\<lambda>c. page c = n) cs = []")
    case True
    then have "str_int n \<notin> (\<lambda>c. str_int (page c)) ` set cs"
      by (auto simp: filter_empty_conv str_int_inject)
    then show ?thesis using True by (simp add: by_page_key_present)
  next
    case False
    then obtain c where "c \<in> set cs" "page c = n"
      by (auto simp: filter_empty_conv)
    then have "str_int n \<in> (\<lambda>c. str_int (page c)) ` set cs" by force
    then have "map_of (foldl count_page [] cs) (str_int n) \<noteq> None"
      by (simp add: by_page_key_present)
    then obtain v where v: "map_of (foldl count_page [] cs) (str_int n) = Some v" by auto
    from f have "dict_get (foldl count_page [] cs) (str_int n) 0 =
                 length (filter (\<lambda>c. page c = n) cs)"
      by (simp add: dict_get_def)
    with v False show ?thesis by (simp add: dict_get_def)
  qed
  from f k show ?thesis by (simp add: build_report_def)
qed

theorem report_summary_consistent_witness:
  "total (build_report
      [\<lparr>page = 1, ctype = Remove, ctext = py ''A''\<rparr>,
       \<lparr>page = 1, ctype = Add, ctext = py ''B''\<rparr>]) = 2 \<and>
   map_of (by_page (build_report
      [\<lparr>page = 1, ctype = Remove, ctext = py ''A''\<rparr>,
       \<lparr>page = 1, ctype = Add, ctext = py ''B''\<rparr>])) (str_int 1) = Some 2"
  using report_summary_consistent
    [of "[\<lparr>page = 1, ctype = Remove, ctext = py ''A''\<rparr>,
          \<lparr>page = 1, ctype = Add, ctext = py ''B''\<rparr>]"]
  by simp

section \<open>Properties of the line diff\<close>

subsection \<open>The two loops as maps\<close>

text \<open>
  Both loops only append to \<open>changes\<close>, so the list is the concatenation of what each
  page and each opcode contributes. This form of the loops serves the proofs.
\<close>

definition kept_change :: "nat \<Rightarrow> change_type \<Rightarrow> pystr list \<Rightarrow> change list" where
  "kept_change page_num ty ls =
     (if strip (join [10] ls) = [] then []
      else [\<lparr>page = page_num, ctype = ty, ctext = join [10] ls\<rparr>])"

definition opcode_changes :: "nat \<Rightarrow> pystr list \<Rightarrow> pystr list \<Rightarrow> opcode \<Rightarrow> change list" where
  "opcode_changes page_num linesA linesB opc =
     (case opc of (tag, i1, i2, j1, j2) \<Rightarrow>
        (case tag of
           Replace \<Rightarrow> kept_change page_num Remove (slice linesA i1 i2) @
                      kept_change page_num Add (slice linesB j1 j2)
         | Delete \<Rightarrow> kept_change page_num Remove (slice linesA i1 i2)
         | Insert \<Rightarrow> kept_change page_num Add (slice linesB j1 j2)
         | Equal \<Rightarrow> []))"

definition page_lines :: "pystr list \<Rightarrow> nat \<Rightarrow> pystr list" where
  "page_lines doc p = (if p < length doc then splitlines (doc ! p) else [])"

definition page_changes :: "pystr list \<Rightarrow> pystr list \<Rightarrow> nat \<Rightarrow> change list" where
  "page_changes docA docB p =
     concat (map (opcode_changes (p + 1) (page_lines docA p) (page_lines docB p))
       (get_opcodes (page_lines docA p) (page_lines docB p)))"

definition line_diff_pages :: "pystr list \<Rightarrow> pystr list \<Rightarrow> change list" where
  "line_diff_pages docA docB =
     concat (map (page_changes docA docB) [0..<max (length docA) (length docB)])"

lemma foldl_append_concat:
  "(\<And>acc x. f acc x = acc @ g x) \<Longrightarrow> foldl f acc xs = acc @ concat (map g xs)"
  by (induction xs arbitrary: acc) simp_all

lemma line_opcode_step_append:
  "line_opcode_step page_num lines1 lines2 chgs opc =
   chgs @ opcode_changes page_num lines1 lines2 opc"
  by (cases opc; cases "fst opc")
    (auto simp: line_opcode_step_def opcode_changes_def kept_change_def append_change_def
      Let_def)

lemma splitlines_Nil: "splitlines [] = []"
  by (simp add: splitlines_def)

lemma lines_of_eq: "lines_of (text_at texts p) = page_lines texts p"
  by (simp add: lines_of_def text_at_def page_lines_def splitlines_Nil)

lemma line_page_step_append:
  "line_page_step texts1 texts2 chgs p = chgs @ page_changes texts1 texts2 p"
  unfolding line_page_step_def Let_def lines_of_eq page_changes_def
  by (rule foldl_append_concat) (rule line_opcode_step_append)

lemma line_diff_as_map: "line_diff texts1 texts2 = line_diff_pages texts1 texts2"
proof -
  have "foldl (line_page_step texts1 texts2) [] ps =
        [] @ concat (map (page_changes texts1 texts2) ps)" for ps
    by (rule foldl_append_concat) (rule line_page_step_append)
  then show ?thesis by (simp add: line_diff_def line_diff_pages_def)
qed

subsection \<open>The stage in the words of the specification\<close>

text \<open>
  The stage as the specification words it, written without the worker's helpers. A page
  text is cut at its line breaks (CR LF is one break): what stands before a break is a
  line, and so is what is left at the end unless it is empty. The lines of an opcode's
  range are joined with a line feed between them. A text is empty after trimming
  whitespace when it has nothing but whitespace. An absent page has no lines.
\<close>

fun after_break :: "pystr \<Rightarrow> pystr" where
  "after_break [] = []"
| "after_break [c] = []"
| "after_break (c # d # ds) = (if c = 13 \<and> d = 10 then ds else d # ds)"

lemma length_after_break: "length (after_break r) \<le> length r - 1"
  by (induction r rule: after_break.induct) simp_all

function spec_split :: "pystr \<Rightarrow> pystr list" where
  "spec_split s =
     (if s = [] then []
      else takeWhile (\<lambda>c. \<not> is_linebreak c) s #
           spec_split (after_break (dropWhile (\<lambda>c. \<not> is_linebreak c) s)))"
  by pat_completeness auto
termination
proof (relation "measure length")
  fix s :: pystr
  assume "s \<noteq> []"
  have "length (after_break (dropWhile (\<lambda>c. \<not> is_linebreak c) s)) \<le>
        length (dropWhile (\<lambda>c. \<not> is_linebreak c) s) - 1"
    by (rule length_after_break)
  also have "\<dots> \<le> length s - 1"
    by (simp add: length_dropWhile_le diff_le_mono)
  also have "\<dots> < length s" using \<open>s \<noteq> []\<close> by simp
  finally show "(after_break (dropWhile (\<lambda>c. \<not> is_linebreak c) s), s) \<in> measure length"
    by simp
qed simp

declare spec_split.simps [simp del]

lemma spec_split_Nil: "spec_split [] = []"
  by (simp add: spec_split.simps)

lemma spec_split_break:
  "is_linebreak c \<Longrightarrow> spec_split (c # cs) = [] # spec_split (after_break (c # cs))"
  by (subst spec_split.simps) simp

lemma splitlines_from_spec:
  "splitlines_from cur s =
     (if cur = [] \<and> s = [] then []
      else (rev cur @ takeWhile (\<lambda>c. \<not> is_linebreak c) s) #
           spec_split (after_break (dropWhile (\<lambda>c. \<not> is_linebreak c) s)))"
proof (induction cur s rule: splitlines_from.induct)
  case (1 cur)
  then show ?case by (simp add: spec_split_Nil)
next
  case (2 cur c cs)
  show ?case
  proof (cases "is_linebreak c")
    case True
    have r: "splitlines_from [] r = spec_split r"
      if "splitlines_from [] r =
           (if [] = [] \<and> r = [] then []
            else (rev [] @ takeWhile (\<lambda>c. \<not> is_linebreak c) r) #
                 spec_split (after_break (dropWhile (\<lambda>c. \<not> is_linebreak c) r)))" for r
      using that by (subst spec_split.simps) simp
    show ?thesis
    proof (cases cs)
      case Nil
      with True show ?thesis by (simp add: spec_split_Nil)
    next
      case (Cons d ds)
      show ?thesis
      proof (cases "c = 13 \<and> d = 10")
        case c: True
        from "2.IH"(2) [OF True Cons c] have "splitlines_from [] ds = spec_split ds" by (rule r)
        with True Cons c show ?thesis by simp
      next
        case c: False
        from "2.IH"(3) [OF True Cons c] have "splitlines_from [] cs = spec_split cs" by (rule r)
        with True Cons c show ?thesis by auto
      qed
    qed
  next
    case False
    with "2.IH"(4) [OF False] show ?thesis by simp
  qed
qed

lemma splitlines_spec_split: "splitlines s = spec_split s"
  by (subst spec_split.simps) (simp add: splitlines_def splitlines_from_spec)

text \<open>The lines joined: the first line, then every further line after a line feed.\<close>

definition spec_joined :: "pystr list \<Rightarrow> pystr" where
  "spec_joined ls = (case ls of [] \<Rightarrow> [] | l # rest \<Rightarrow> l @ concat (map (\<lambda>x. 10 # x) rest))"

lemma join_Cons: "join [10] (x # xs) = x @ concat (map (\<lambda>x. 10 # x) xs)"
  by (induction xs arbitrary: x) simp_all

lemma join_spec_joined: "join [10] ls = spec_joined ls"
  by (cases ls) (simp_all add: spec_joined_def join_Cons)

text \<open>Empty after trimming whitespace: nothing but whitespace.\<close>

definition spec_blank :: "pystr \<Rightarrow> bool" where
  "spec_blank t \<longleftrightarrow> list_all is_space t"

lemma strip_blank: "strip s = [] \<longleftrightarrow> spec_blank s"
proof
  assume "spec_blank s"
  then have "dropWhile is_space s = []"
    unfolding dropWhile_eq_Nil_conv by (simp add: spec_blank_def list_all_iff)
  then show "strip s = []" by (simp only: strip_def rev.simps dropWhile.simps)
next
  assume "strip s = []"
  then have a: "\<forall>x \<in> set (rev (dropWhile is_space s)). is_space x"
    unfolding strip_def rev_is_Nil_conv dropWhile_eq_Nil_conv .
  have "dropWhile is_space s = []"
  proof (rule ccontr)
    assume n: "dropWhile is_space s \<noteq> []"
    then have "\<not> is_space (hd (dropWhile is_space s))" by (rule hd_dropWhile)
    moreover from n have "hd (dropWhile is_space s) \<in> set (dropWhile is_space s)" by (rule hd_in_set)
    ultimately show False using a by simp
  qed
  then show "spec_blank s"
    unfolding dropWhile_eq_Nil_conv by (simp add: spec_blank_def list_all_iff)
qed


text \<open>
  A change is emitted only if its joined text is not blank. Replace emits a Remove and
  an Add change, independently of each other; Delete a Remove change; Insert an Add
  change; Equal nothing.
\<close>

definition spec_change :: "nat \<Rightarrow> change_type \<Rightarrow> pystr list \<Rightarrow> change list" where
  "spec_change page_num ty ls =
     (if spec_blank (spec_joined ls) then []
      else [\<lparr>page = page_num, ctype = ty, ctext = spec_joined ls\<rparr>])"

fun spec_opcode_changes :: "nat \<Rightarrow> pystr list \<Rightarrow> pystr list \<Rightarrow> opcode \<Rightarrow> change list" where
  "spec_opcode_changes page_num linesA linesB (Replace, i1, i2, j1, j2) =
     spec_change page_num Remove (drop i1 (take i2 linesA)) @
     spec_change page_num Add (drop j1 (take j2 linesB))"
| "spec_opcode_changes page_num linesA linesB (Delete, i1, i2, j1, j2) =
     spec_change page_num Remove (drop i1 (take i2 linesA))"
| "spec_opcode_changes page_num linesA linesB (Insert, i1, i2, j1, j2) =
     spec_change page_num Add (drop j1 (take j2 linesB))"
| "spec_opcode_changes page_num linesA linesB (Equal, i1, i2, j1, j2) = []"

text \<open>
  Both documents are brought to the larger page count, an absent page having no lines;
  the page with index \<open>p\<close> carries the page number \<open>p + 1\<close>.
\<close>

definition pad_pages :: "nat \<Rightarrow> 'a list list \<Rightarrow> 'a list list" where
  "pad_pages n pages = pages @ replicate (n - length pages) []"

definition spec_page_changes :: "nat \<Rightarrow> pystr list \<Rightarrow> pystr list \<Rightarrow> change list" where
  "spec_page_changes p linesA linesB =
     concat (map (spec_opcode_changes (p + 1) linesA linesB) (get_opcodes linesA linesB))"

definition spec_line_diff :: "pystr list \<Rightarrow> pystr list \<Rightarrow> change list" where
  "spec_line_diff docA docB =
     (let n = max (length docA) (length docB);
          pagesA = pad_pages n (map spec_split docA);
          pagesB = pad_pages n (map spec_split docB)
      in concat (map (\<lambda>(p, linesA, linesB). spec_page_changes p linesA linesB)
           (zip [0..<n] (zip pagesA pagesB))))"

lemma kept_change_spec: "kept_change page_num ty ls = spec_change page_num ty ls"
  by (simp add: kept_change_def spec_change_def join_spec_joined strip_blank)

lemma slice_spec: "slice xs i j = drop i (take j xs)"
  by (simp add: slice_def drop_take)

lemma opcode_changes_spec:
  "opcode_changes page_num la lb opc = spec_opcode_changes page_num la lb opc"
  by (cases "(page_num, la, lb, opc)" rule: spec_opcode_changes.cases)
    (simp_all add: opcode_changes_def kept_change_spec slice_spec)

lemma length_pad_pages: "length pages \<le> n \<Longrightarrow> length (pad_pages n pages) = n"
  by (simp add: pad_pages_def)

lemma pad_pages_nth:
  "p < n \<Longrightarrow> pad_pages n (map f doc) ! p = (if p < length doc then f (doc ! p) else [])"
  by (simp add: pad_pages_def nth_append)

lemma page_lines_spec:
  "p < n \<Longrightarrow> page_lines doc p = pad_pages n (map spec_split doc) ! p"
  by (simp add: page_lines_def pad_pages_nth splitlines_spec_split)

lemma page_changes_spec:
  assumes "p < n"
  shows "page_changes docA docB p =
         spec_page_changes p (pad_pages n (map spec_split docA) ! p)
           (pad_pages n (map spec_split docB) ! p)"
  unfolding page_changes_def spec_page_changes_def
    page_lines_spec [OF assms, of docA] page_lines_spec [OF assms, of docB]
  by (simp add: opcode_changes_spec [abs_def])

lemma line_diff_pages_spec: "line_diff_pages docA docB = spec_line_diff docA docB"
proof -
  define n where "n = max (length docA) (length docB)"
  define pagesA where "pagesA = pad_pages n (map spec_split docA)"
  define pagesB where "pagesB = pad_pages n (map spec_split docB)"
  have l: "length pagesA = n" "length pagesB = n"
    by (simp_all add: pagesA_def pagesB_def n_def length_pad_pages)
  have "map (page_changes docA docB) [0..<n] =
        map (\<lambda>(p, linesA, linesB). spec_page_changes p linesA linesB)
          (zip [0..<n] (zip pagesA pagesB))"
  proof (rule nth_equalityI)
    show "length (map (page_changes docA docB) [0..<n]) =
          length (map (\<lambda>(p, linesA, linesB). spec_page_changes p linesA linesB)
            (zip [0..<n] (zip pagesA pagesB)))"
      by (simp add: l)
  next
    fix p
    assume "p < length (map (page_changes docA docB) [0..<n])"
    then have p: "p < n" by simp
    from page_changes_spec [OF p, of docA docB]
    have "page_changes docA docB p = spec_page_changes p (pagesA ! p) (pagesB ! p)"
      by (simp only: pagesA_def pagesB_def)
    with p show "map (page_changes docA docB) [0..<n] ! p =
          map (\<lambda>(p, linesA, linesB). spec_page_changes p linesA linesB)
            (zip [0..<n] (zip pagesA pagesB)) ! p"
      by (simp add: l)
  qed
  then show ?thesis
    by (simp add: line_diff_pages_def spec_line_diff_def Let_def n_def pagesA_def pagesB_def)
qed

text \<open>
  C3. For each page index \<open>p\<close> from 0 to the larger page count minus one, the line diff
  stage splits each side's page text on line breaks (no lines when the page is absent on
  that side), runs the aligner, and emits per opcode: for Replace a Remove change with
  the joined left lines and an Add change with the joined right lines, as two
  independent changes; for Delete a Remove change; for Insert an Add change; for Equal
  nothing. Each change is emitted only if its joined text is non-empty after trimming
  whitespace, and carries the page number \<open>p + 1\<close>.
\<close>

theorem line_diff_stage: "line_diff texts1 texts2 = spec_line_diff texts1 texts2"
  by (simp only: line_diff_as_map line_diff_pages_spec)


text \<open>
  An example with three pages: a line replaced by two on page 1, a whitespace-only line
  deleted on page 2 (no change), and a page 3 that only the second document has, its two
  lines separated by CR LF.
\<close>

lemma split_examples:
  "spec_split (py ''a'' @ 10 # py ''b'' @ 10 # py ''c'') = [py ''a'', py ''b'', py ''c'']"
  "spec_split (py ''a'' @ 10 # py ''x'' @ 10 # py ''y'' @ 10 # py ''c'') =
     [py ''a'', py ''x'', py ''y'', py ''c'']"
  "spec_split (py ''d'' @ 10 # py '' '' @ 10 # py ''e'') = [py ''d'', py '' '', py ''e'']"
  "spec_split (py ''d'' @ 10 # py ''e'') = [py ''d'', py ''e'']"
  "spec_split (py ''f'' @ 13 # 10 # py ''g'') = [py ''f'', py ''g'']"
  by (simp_all add: spec_split.simps py_def is_linebreak_def)

lemma opcodes_examples:
  "get_opcodes [py ''a'', py ''b'', py ''c''] [py ''a'', py ''x'', py ''y'', py ''c''] =
     [(Equal, 0, 1, 0, 1), (Replace, 1, 2, 1, 3), (Equal, 2, 3, 3, 4)]"
  "get_opcodes [py ''d'', py '' '', py ''e''] [py ''d'', py ''e''] =
     [(Equal, 0, 1, 0, 1), (Delete, 1, 2, 1, 1), (Equal, 2, 3, 1, 2)]"
  "get_opcodes [] [py ''f'', py ''g''] = [(Insert, 0, 0, 0, 2)]"
  by code_simp+

lemma spec_line_diff_example:
  "spec_line_diff
     [py ''a'' @ 10 # py ''b'' @ 10 # py ''c'', py ''d'' @ 10 # py '' '' @ 10 # py ''e'']
     [py ''a'' @ 10 # py ''x'' @ 10 # py ''y'' @ 10 # py ''c'', py ''d'' @ 10 # py ''e'',
      py ''f'' @ 13 # 10 # py ''g''] =
   [\<lparr>page = 1, ctype = Remove, ctext = py ''b''\<rparr>,
    \<lparr>page = 1, ctype = Add, ctext = py ''x'' @ 10 # py ''y''\<rparr>,
    \<lparr>page = 3, ctype = Add, ctext = py ''f'' @ 10 # py ''g''\<rparr>]"
proof -
  have u: "[0..<3] = [0, 1, 2]" by (simp add: upt_rec)
  have b: "\<not> spec_blank (py ''b'')" "\<not> spec_blank (py ''x'' @ 10 # py ''y'')"
    "spec_blank (py '' '')" "\<not> spec_blank (py ''f'' @ 10 # py ''g'')"
    by (simp_all add: spec_blank_def py_def is_space_def)
  show ?thesis
    by (simp add: spec_line_diff_def Let_def pad_pages_def split_examples u
        spec_page_changes_def opcodes_examples spec_change_def spec_joined_def b)
qed

theorem line_diff_stage_witness:
  "line_diff
     [py ''a'' @ 10 # py ''b'' @ 10 # py ''c'', py ''d'' @ 10 # py '' '' @ 10 # py ''e'']
     [py ''a'' @ 10 # py ''x'' @ 10 # py ''y'' @ 10 # py ''c'', py ''d'' @ 10 # py ''e'',
      py ''f'' @ 13 # 10 # py ''g''] =
   [\<lparr>page = 1, ctype = Remove, ctext = py ''b''\<rparr>,
    \<lparr>page = 1, ctype = Add, ctext = py ''x'' @ 10 # py ''y''\<rparr>,
    \<lparr>page = 3, ctype = Add, ctext = py ''f'' @ 10 # py ''g''\<rparr>]"
  using line_diff_stage
    [of "[py ''a'' @ 10 # py ''b'' @ 10 # py ''c'', py ''d'' @ 10 # py '' '' @ 10 # py ''e'']"
      "[py ''a'' @ 10 # py ''x'' @ 10 # py ''y'' @ 10 # py ''c'', py ''d'' @ 10 # py ''e'',
        py ''f'' @ 13 # 10 # py ''g'']"]
  by (simp only: spec_line_diff_example)

subsection \<open>A one-line page replaced by another\<close>

lemma opcodes_A_B: "get_opcodes [py ''A''] [py ''B''] = [(Replace, 0, 1, 0, 1)]"
  by code_simp

lemma total_replacement:
  "line_diff_pages [py ''A''] [py ''B''] =
     [\<lparr>page = 1, ctype = Remove, ctext = py ''A''\<rparr>,
      \<lparr>page = 1, ctype = Add, ctext = py ''B''\<rparr>]"
proof -
  have l: "splitlines (py ''A'') = [py ''A'']" "splitlines (py ''B'') = [py ''B'']"
    by (simp_all add: splitlines_def py_def is_linebreak_def)
  have s: "strip (py ''A'') \<noteq> []" "strip (py ''B'') \<noteq> []"
    by (simp_all add: strip_def py_def is_space_def)
  show ?thesis
    by (simp add: line_diff_pages_def page_changes_def page_lines_def l opcodes_A_B
        opcode_changes_def kept_change_def slice_def s)
qed

subsection \<open>No change with blank text\<close>

lemma opcode_changes_nonblank:
  "c \<in> set (opcode_changes page_num la lb opc) \<Longrightarrow> strip (ctext c) \<noteq> []"
  by (cases opc; cases "fst opc")
    (auto simp: opcode_changes_def kept_change_def split: if_splits)

lemma line_diff_nonblank: "c \<in> set (line_diff texts1 texts2) \<Longrightarrow> strip (ctext c) \<noteq> []"
  by (auto simp: line_diff_as_map line_diff_pages_def page_changes_def
      dest: opcode_changes_nonblank)

subsection \<open>Whitespace around a page's text\<close>

lemma strip_append_space:
  assumes "list_all is_space r"
  shows "strip (c @ r) = strip c"
proof (cases "list_all is_space c")
  case True
  with assms have "dropWhile is_space (c @ r) = []" "dropWhile is_space c = []"
    unfolding dropWhile_eq_Nil_conv by (auto simp: list_all_iff)
  then show ?thesis by (simp only: strip_def)
next
  case False
  then obtain x where "x \<in> set c" "\<not> is_space x" by (auto simp: list_all_iff)
  then have "dropWhile is_space (c @ r) = dropWhile is_space c @ r"
    by (rule dropWhile_append1)
  moreover have "dropWhile is_space (rev r @ ys) = dropWhile is_space ys" for ys
    using assms by (intro dropWhile_append2) (simp add: list_all_iff)
  ultimately show ?thesis by (simp add: strip_def)
qed

lemma strip_space_append:
  assumes "list_all is_space l"
  shows "strip (l @ c) = strip c"
proof -
  have "dropWhile is_space (l @ c) = dropWhile is_space c"
    using assms by (intro dropWhile_append2) (simp add: list_all_iff)
  then show ?thesis by (simp add: strip_def)
qed

lemma strip_padded:
  "list_all is_space l \<Longrightarrow> list_all is_space r \<Longrightarrow> strip (l @ c @ r) = strip c"
  by (simp add: strip_space_append strip_append_space)

section \<open>The comparison of two documents\<close>

text \<open>
  The changes and the report of a comparison, from what \<open>page.extract_text()\<close> returns
  for the pages of the two documents.
\<close>

definition compare_changes :: "pystr option list \<Rightarrow> pystr option list \<Rightarrow> change list" where
  "compare_changes pdf1 pdf2 =
     line_diff (extract_text_per_page pdf1) (extract_text_per_page pdf2)"

definition compare_report :: "pystr option list \<Rightarrow> pystr option list \<Rightarrow> report" where
  "compare_report pdf1 pdf2 = build_report (compare_changes pdf1 pdf2)"

text \<open>
  \<^verbatim>\<open>
  f.write("Compare PDF - Change report\\n")
  f.write(f"Total changes: {len(changes)}\\n\\n")
  for c in changes:
      label = "Removed" if c["type"] == "remove" else "Added"
      f.write(f"Page {c['page']} - {label}:\\n{c['text']}\\n\\n")
  \<close>
  The text report has one block per change: its page, its label and its text.
\<close>

definition report_txt_blocks :: "change list \<Rightarrow> (nat \<times> string \<times> pystr) list" where
  "report_txt_blocks chgs =
     map (\<lambda>c. (page c, if ctype c = Remove then ''Removed'' else ''Added'', ctext c)) chgs"

text \<open>
  C10. No change with empty or whitespace-only text appears in the change list, in the
  report built from it, or in the blocks of the text report.
\<close>

theorem changes_never_blank:
  "(\<forall>c \<in> set (compare_changes pdf1 pdf2). strip (ctext c) \<noteq> []) \<and>
   (\<forall>c \<in> set (changes (compare_report pdf1 pdf2)). strip (ctext c) \<noteq> []) \<and>
   (\<forall>blk \<in> set (report_txt_blocks (compare_changes pdf1 pdf2)).
      strip (snd (snd blk)) \<noteq> [])"
  by (auto simp: compare_changes_def compare_report_def build_report_def report_txt_blocks_def
      dest: line_diff_nonblank)

theorem changes_never_blank_witness:
  "compare_changes [Some (py ''A'')] [Some (py ''B'')] =
     [\<lparr>page = 1, ctype = Remove, ctext = py ''A''\<rparr>,
      \<lparr>page = 1, ctype = Add, ctext = py ''B''\<rparr>] \<and>
   strip (py ''A'') \<noteq> [] \<and> strip (py ''B'') \<noteq> []"
proof -
  have s: "strip (py ''A'') = py ''A''" "strip (py ''B'') = py ''B''"
    by (simp_all add: strip_def py_def is_space_def)
  have e: "compare_changes [Some (py ''A'')] [Some (py ''B'')] =
     [\<lparr>page = 1, ctype = Remove, ctext = py ''A''\<rparr>,
      \<lparr>page = 1, ctype = Add, ctext = py ''B''\<rparr>]"
    by (simp add: compare_changes_def extract_text_per_page_def raw_text_def s
        line_diff_as_map total_replacement)
  show ?thesis
    using changes_never_blank [of "[Some (py ''A'')]" "[Some (py ''B'')]"]
    unfolding e by simp
qed

text \<open>
  Two page texts differ only in leading or trailing whitespace when both are the same
  text with whitespace put before and after it.
\<close>

definition ws_padded :: "pystr \<Rightarrow> pystr \<Rightarrow> bool" where
  "ws_padded c t \<longleftrightarrow> (\<exists>l r. list_all is_space l \<and> list_all is_space r \<and> t = l @ c @ r)"

definition differ_only_ws :: "pystr option \<Rightarrow> pystr option \<Rightarrow> bool" where
  "differ_only_ws t t' \<longleftrightarrow> (\<exists>c. ws_padded c (raw_text t) \<and> ws_padded c (raw_text t'))"

lemma differ_only_ws_strip:
  "differ_only_ws t t' \<Longrightarrow> strip (raw_text t) = strip (raw_text t')"
  by (auto simp: differ_only_ws_def ws_padded_def strip_padded)

lemma extract_text_per_page_ws:
  "list_all2 differ_only_ws pdf pdf' \<Longrightarrow> extract_text_per_page pdf = extract_text_per_page pdf'"
proof (induction rule: list_all2_induct)
  case Nil
  then show ?case by (simp add: extract_text_per_page_def)
next
  case (Cons t ts t' ts')
  from differ_only_ws_strip [OF Cons(1)] Cons(3) show ?case
    by (simp add: extract_text_per_page_def)
qed

text \<open>
  C9. Each page's extracted text is stripped before it is split into lines, so two runs
  whose page texts differ only in leading or trailing whitespace give the same change
  list and the same report.
\<close>

theorem changes_ignore_outer_whitespace:
  assumes "list_all2 differ_only_ws pdf1 pdf1'" and "list_all2 differ_only_ws pdf2 pdf2'"
  shows "compare_changes pdf1 pdf2 = compare_changes pdf1' pdf2' \<and>
         compare_report pdf1 pdf2 = compare_report pdf1' pdf2'"
  using assms [THEN extract_text_per_page_ws]
  by (simp add: compare_report_def compare_changes_def)

theorem changes_ignore_outer_whitespace_witness:
  "compare_changes [Some (py '' A'')] [None] = compare_changes [Some (py ''A  '')] [Some (py '' '')]"
proof -
  have s: "list_all is_space (py '' '')" "list_all is_space (py ''  '')"
    by (simp_all add: py_def is_space_def)
  have "ws_padded (py ''A'') (py '' A'')"
    unfolding ws_padded_def
    by (rule exI [of _ "py '' ''"], rule exI [of _ "[]"]) (simp add: s, simp add: py_def)
  moreover have "ws_padded (py ''A'') (py ''A  '')"
    unfolding ws_padded_def
    by (rule exI [of _ "[]"], rule exI [of _ "py ''  ''"]) (simp add: s, simp add: py_def)
  ultimately have 1: "list_all2 differ_only_ws [Some (py '' A'')] [Some (py ''A  '')]"
    by (auto simp: differ_only_ws_def raw_text_def)
  have "ws_padded [] []"
    unfolding ws_padded_def by (rule exI [of _ "[]"], rule exI [of _ "[]"]) simp
  moreover have "ws_padded [] (py '' '')"
    unfolding ws_padded_def
    by (rule exI [of _ "py '' ''"], rule exI [of _ "[]"]) (simp add: s)
  ultimately have 2: "list_all2 differ_only_ws [None] [Some (py '' '')]"
    by (auto simp: differ_only_ws_def raw_text_def)
  from changes_ignore_outer_whitespace [OF 1 2] show ?thesis by simp
qed

section \<open>Properties of the aligner\<close>

subsection \<open>Empty windows\<close>

lemma scan_row_empty_window: "bhi \<le> blo \<Longrightarrow> scan_row j2len i blo bhi js st = st"
proof (induction js)
  case Nil
  then show ?case by simp
next
  case (Cons j js)
  then show ?case by (cases st; cases "snd st") (auto simp: Let_def)
qed

lemma rows_empty_window:
  "bhi \<le> blo \<Longrightarrow>
   foldl (row_step a b2j blo bhi) (Map.empty, best) rows = (Map.empty, best)"
  by (induction rows) (simp_all add: row_step_def scan_row_empty_window)

lemma longest_junk_free_empty:
  "ahi \<le> alo \<or> bhi \<le> blo \<Longrightarrow> longest_junk_free a b2j alo ahi blo bhi = (alo, blo, 0)"
  by (auto simp: longest_junk_free_def rows_empty_window)

lemma find_longest_match_empty:
  "ahi \<le> alo \<or> bhi \<le> blo \<Longrightarrow> find_longest_match a b b2j alo ahi blo bhi = (alo, blo, 0)"
  by (auto simp: find_longest_match_def longest_junk_free_empty extend_left_stop
      extend_right_stop)

lemma match_loop_Nil: "match_loop a b b2j [] mbs = mbs"
  by (subst match_loop.simps) simp

lemma match_loop_empty:
  "ahi \<le> alo \<or> bhi \<le> blo \<Longrightarrow> match_loop a b b2j [(alo, ahi, blo, bhi)] [] = []"
  by (subst match_loop.simps) (simp add: find_longest_match_empty match_loop_Nil)

lemma collapse_Nil: "collapse [] = []"
  by (simp add: collapse_def)

lemma get_matching_blocks_empty:
  "a = [] \<or> b = [] \<Longrightarrow> get_matching_blocks a b = [(length a, length b, 0)]"
  by (auto simp: get_matching_blocks_def match_loop_empty collapse_Nil)

lemma get_opcodes_both_empty: "get_opcodes [] [] = []"
  by (simp add: get_opcodes_def get_matching_blocks_empty opcode_step_def)

lemma get_opcodes_right_empty: "a \<noteq> [] \<Longrightarrow> get_opcodes a [] = [(Delete, 0, length a, 0, 0)]"
  by (simp add: get_opcodes_def get_matching_blocks_empty opcode_step_def)

lemma get_opcodes_left_empty: "b \<noteq> [] \<Longrightarrow> get_opcodes [] b = [(Insert, 0, 0, 0, length b)]"
  by (simp add: get_opcodes_def get_matching_blocks_empty opcode_step_def)

text \<open>
  C7 (as amended). The aligner is a total function. With only the left sequence non-empty
  it returns one Delete over the whole left sequence, with only the right sequence
  non-empty one Insert over the whole right sequence, and with both empty the empty
  opcode list.
\<close>

theorem aligner_empty_sides:
  "get_opcodes ([] :: 'a list) [] = [] \<and>
   ((a :: 'a list) \<noteq> [] \<longrightarrow> get_opcodes a [] = [(Delete, 0, length a, 0, 0)]) \<and>
   ((b :: 'a list) \<noteq> [] \<longrightarrow> get_opcodes [] b = [(Insert, 0, 0, 0, length b)])"
  by (simp add: get_opcodes_both_empty get_opcodes_right_empty get_opcodes_left_empty)

theorem aligner_empty_sides_witness:
  "get_opcodes [py ''A'', py ''B''] [] = [(Delete, 0, 2, 0, 0)] \<and>
   get_opcodes [] [py ''A'', py ''B''] = [(Insert, 0, 0, 0, 2)]"
  using aligner_empty_sides [of "[py ''A'', py ''B'']" "[py ''A'', py ''B'']"]
  by (simp add: numeral_2_eq_2)

text \<open>
  The claim as stated fails for two empty sequences: the result has no opcode at all,
  in particular no Equal opcode.
\<close>

theorem aligner_both_empty_counterexample:
  "get_opcodes ([] :: pystr list) [] = [] \<and>
   get_opcodes ([] :: pystr list) [] \<noteq> [(Equal, 0, 0, 0, 0)]"
  by (simp add: get_opcodes_both_empty)

section \<open>Properties of the word diff\<close>

subsection \<open>The loops as maps\<close>

text \<open>
  The boxes one opcode and one page add to a red and to a green list; every page has its
  own entry in both highlight lists, so the loops fill them one entry at a time.
\<close>

definition left_boxes :: "'c word list \<Rightarrow> opcode \<Rightarrow> 'c bbox list" where
  "left_boxes words_left opc =
     (case opc of (tag, i1, i2, j1, j2) \<Rightarrow>
        if tag = Delete \<or> tag = Replace then map (\<lambda>k. rect (words_left ! k)) [i1..<i2]
        else [])"

definition right_boxes :: "'c word list \<Rightarrow> opcode \<Rightarrow> 'c bbox list" where
  "right_boxes words_right opc =
     (case opc of (tag, i1, i2, j1, j2) \<Rightarrow>
        if tag = Insert \<or> tag = Replace then map (\<lambda>k. rect (words_right ! k)) [j1..<j2]
        else [])"

definition page_red :: "'c word list \<Rightarrow> 'c word list \<Rightarrow> 'c bbox list" where
  "page_red words_left words_right =
     concat (map (left_boxes words_left)
       (get_opcodes (map word_text words_left) (map word_text words_right)))"

definition page_green :: "'c word list \<Rightarrow> 'c word list \<Rightarrow> 'c bbox list" where
  "page_green words_left words_right =
     concat (map (right_boxes words_right)
       (get_opcodes (map word_text words_left) (map word_text words_right)))"

definition word_diff_pages ::
  "'c word list list \<Rightarrow> 'c word list list \<Rightarrow> 'c highlights list \<times> 'c highlights list" where
  "word_diff_pages pdf1 pdf2 =
     (map (\<lambda>p. \<lparr>red = page_red (words_at pdf1 p) (words_at pdf2 p), green = []\<rparr>)
        [0..<max (length pdf1) (length pdf2)],
      map (\<lambda>p. \<lparr>red = [], green = page_green (words_at pdf1 p) (words_at pdf2 p)\<rparr>)
        [0..<max (length pdf1) (length pdf2)])"

definition add_red :: "nat \<Rightarrow> 'c bbox list \<Rightarrow> 'c highlights list \<Rightarrow> 'c highlights list" where
  "add_red i rs hl = hl[i := (hl ! i)\<lparr>red := red (hl ! i) @ rs\<rparr>]"

definition add_green :: "nat \<Rightarrow> 'c bbox list \<Rightarrow> 'c highlights list \<Rightarrow> 'c highlights list" where
  "add_green i rs hl = hl[i := (hl ! i)\<lparr>green := green (hl ! i) @ rs\<rparr>]"

lemma add_red_Nil: "add_red i [] hl = hl"
  by (simp add: add_red_def)

lemma add_green_Nil: "add_green i [] hl = hl"
  by (simp add: add_green_def)

lemma add_red_add_red:
  "i < length hl \<Longrightarrow> add_red i rs' (add_red i rs hl) = add_red i (rs @ rs') hl"
  by (simp add: add_red_def)

lemma add_green_add_green:
  "i < length hl \<Longrightarrow> add_green i rs' (add_green i rs hl) = add_green i (rs @ rs') hl"
  by (simp add: add_green_def)

lemma length_add_red: "length (add_red i rs hl) = length hl"
  by (simp add: add_red_def)

lemma length_add_green: "length (add_green i rs hl) = length hl"
  by (simp add: add_green_def)

lemma foldl_append_red:
  "i < length hl \<Longrightarrow>
   foldl (append_red i wl) hl ks = add_red i (map (\<lambda>k. rect (wl ! k)) ks) hl"
proof (induction ks arbitrary: hl)
  case Nil
  then show ?case by (simp add: add_red_Nil)
next
  case (Cons k ks)
  have a: "append_red i wl hl k = add_red i [rect (wl ! k)] hl"
    by (simp add: append_red_def add_red_def)
  from Cons show ?case
    by (simp add: a length_add_red add_red_add_red)
qed

lemma foldl_append_green:
  "i < length hl \<Longrightarrow>
   foldl (append_green i wr) hl ks = add_green i (map (\<lambda>k. rect (wr ! k)) ks) hl"
proof (induction ks arbitrary: hl)
  case Nil
  then show ?case by (simp add: add_green_Nil)
next
  case (Cons k ks)
  have a: "append_green i wr hl k = add_green i [rect (wr ! k)] hl"
    by (simp add: append_green_def add_green_def)
  from Cons show ?case
    by (simp add: a length_add_green add_green_add_green)
qed

lemma word_opcode_step_eq:
  assumes "i < length lh" "i < length rh"
  shows "word_opcode_step i wl wr (lh, rh) opc =
         (add_red i (left_boxes wl opc) lh, add_green i (right_boxes wr opc) rh)"
proof -
  obtain tag i1 i2 j1 j2 where opc: "opc = (tag, i1, i2, j1, j2)" by (cases opc)
  show ?thesis
    using assms
    by (auto simp: opc word_opcode_step_def left_boxes_def right_boxes_def
        foldl_append_red foldl_append_green add_red_Nil add_green_Nil)
qed

lemma foldl_word_opcode_step:
  assumes "i < length lh" "i < length rh"
  shows "foldl (word_opcode_step i wl wr) (lh, rh) ops =
         (add_red i (concat (map (left_boxes wl) ops)) lh,
          add_green i (concat (map (right_boxes wr) ops)) rh)"
  using assms
proof (induction ops arbitrary: lh rh)
  case Nil
  then show ?case by (simp add: add_red_Nil add_green_Nil)
next
  case (Cons opc ops)
  then show ?case
    by (simp add: word_opcode_step_eq length_add_red length_add_green add_red_add_red
        add_green_add_green)
qed

lemma word_page_step_eq:
  assumes "i < length lh" "i < length rh"
  shows "word_page_step pdf1 pdf2 (lh, rh) i =
         (add_red i (page_red (words_at pdf1 i) (words_at pdf2 i)) lh,
          add_green i (page_green (words_at pdf1 i) (words_at pdf2 i)) rh)"
  using assms
  by (simp add: word_page_step_def Let_def foldl_word_opcode_step page_red_def page_green_def)

lemma add_red_fresh:
  "add_red n rs (map f [0..<n] @ \<lparr>red = [], green = []\<rparr> # rest) =
   map f [0..<n] @ \<lparr>red = rs, green = []\<rparr> # rest"
  by (simp add: add_red_def nth_append list_update_append)

lemma add_green_fresh:
  "add_green n rs (map f [0..<n] @ \<lparr>red = [], green = []\<rparr> # rest) =
   map f [0..<n] @ \<lparr>red = [], green = rs\<rparr> # rest"
  by (simp add: add_green_def nth_append list_update_append)

lemma word_pages:
  "n \<le> m \<Longrightarrow>
   foldl (word_page_step pdf1 pdf2)
     (replicate m \<lparr>red = [], green = []\<rparr>, replicate m \<lparr>red = [], green = []\<rparr>) [0..<n] =
   (map (\<lambda>p. \<lparr>red = page_red (words_at pdf1 p) (words_at pdf2 p), green = []\<rparr>) [0..<n] @
      replicate (m - n) \<lparr>red = [], green = []\<rparr>,
    map (\<lambda>p. \<lparr>red = [], green = page_green (words_at pdf1 p) (words_at pdf2 p)\<rparr>) [0..<n] @
      replicate (m - n) \<lparr>red = [], green = []\<rparr>)"
proof (induction n)
  case 0
  then show ?case by simp
next
  case (Suc n)
  then have r: "m - n = Suc (m - Suc n)" by simp
  from Suc show ?case
    by (simp add: word_page_step_eq) (simp add: r add_red_fresh add_green_fresh)
qed

lemma word_diff_as_map: "word_diff pdf1 pdf2 = word_diff_pages pdf1 pdf2"
  by (simp add: word_diff_def word_diff_pages_def Let_def word_pages)

subsection \<open>The stage in the words of the specification\<close>

text \<open>
  The stage as the specification words it, written without the worker's helpers. A word
  has a text and a box; the token compared is the text alone. On every page the opcodes
  of the two token lists are read off: the words in the left range of a Delete or a
  Replace give their boxes to the red list of the page on the left side, the words in
  the right range of an Insert or a Replace give theirs to the green list of the page on
  the right side. A page that one document lacks has no words.
\<close>

definition spec_token :: "'c word \<Rightarrow> pystr" where
  "spec_token w = (if wtext w = None then [] else the (wtext w))"

definition spec_bbox :: "'c word \<Rightarrow> 'c bbox" where
  "spec_bbox w = (x0 w, top w, x1 w, bottom w)"

fun spec_red_boxes :: "'c word list \<Rightarrow> opcode \<Rightarrow> 'c bbox list" where
  "spec_red_boxes wordsA (Delete, i1, i2, j1, j2) = map (\<lambda>k. spec_bbox (wordsA ! k)) [i1..<i2]"
| "spec_red_boxes wordsA (Replace, i1, i2, j1, j2) = map (\<lambda>k. spec_bbox (wordsA ! k)) [i1..<i2]"
| "spec_red_boxes wordsA (Insert, i1, i2, j1, j2) = []"
| "spec_red_boxes wordsA (Equal, i1, i2, j1, j2) = []"

fun spec_green_boxes :: "'c word list \<Rightarrow> opcode \<Rightarrow> 'c bbox list" where
  "spec_green_boxes wordsB (Insert, i1, i2, j1, j2) = map (\<lambda>k. spec_bbox (wordsB ! k)) [j1..<j2]"
| "spec_green_boxes wordsB (Replace, i1, i2, j1, j2) = map (\<lambda>k. spec_bbox (wordsB ! k)) [j1..<j2]"
| "spec_green_boxes wordsB (Delete, i1, i2, j1, j2) = []"
| "spec_green_boxes wordsB (Equal, i1, i2, j1, j2) = []"

definition spec_page_opcodes :: "'c word list \<Rightarrow> 'c word list \<Rightarrow> opcode list" where
  "spec_page_opcodes wordsA wordsB = get_opcodes (map spec_token wordsA) (map spec_token wordsB)"

definition spec_left_page :: "'c word list \<Rightarrow> 'c word list \<Rightarrow> 'c highlights" where
  "spec_left_page wordsA wordsB =
     \<lparr>red = concat (map (spec_red_boxes wordsA) (spec_page_opcodes wordsA wordsB)), green = []\<rparr>"

definition spec_right_page :: "'c word list \<Rightarrow> 'c word list \<Rightarrow> 'c highlights" where
  "spec_right_page wordsA wordsB =
     \<lparr>red = [], green = concat (map (spec_green_boxes wordsB) (spec_page_opcodes wordsA wordsB))\<rparr>"

definition spec_word_diff ::
  "'c word list list \<Rightarrow> 'c word list list \<Rightarrow> 'c highlights list \<times> 'c highlights list" where
  "spec_word_diff docA docB =
     (let n = max (length docA) (length docB);
          pages = zip (pad_pages n docA) (pad_pages n docB)
      in (map (\<lambda>(wordsA, wordsB). spec_left_page wordsA wordsB) pages,
          map (\<lambda>(wordsA, wordsB). spec_right_page wordsA wordsB) pages))"

lemma word_text_spec: "word_text w = spec_token w"
  by (simp add: word_text_def spec_token_def split: option.split)

lemma rect_spec: "rect w = spec_bbox w"
  by (simp add: rect_def spec_bbox_def)

lemma left_boxes_spec: "left_boxes ws opc = spec_red_boxes ws opc"
  by (cases "(ws, opc)" rule: spec_red_boxes.cases) (simp_all add: left_boxes_def rect_spec)

lemma right_boxes_spec: "right_boxes ws opc = spec_green_boxes ws opc"
  by (cases "(ws, opc)" rule: spec_green_boxes.cases) (simp_all add: right_boxes_def rect_spec)

lemma page_red_spec: "\<lparr>red = page_red wa wb, green = []\<rparr> = spec_left_page wa wb"
  by (simp add: page_red_def spec_left_page_def spec_page_opcodes_def left_boxes_spec [abs_def]
      word_text_spec [abs_def])

lemma page_green_spec: "\<lparr>red = [], green = page_green wa wb\<rparr> = spec_right_page wa wb"
  by (simp add: page_green_def spec_right_page_def spec_page_opcodes_def
      right_boxes_spec [abs_def] word_text_spec [abs_def])

lemma words_at_pad: "p < n \<Longrightarrow> words_at doc p = pad_pages n doc ! p"
  by (simp add: words_at_def pad_pages_def nth_append)

lemma pages_as_zip:
  assumes "length docA \<le> n" "length docB \<le> n"
  shows "map (\<lambda>p. f (words_at docA p) (words_at docB p)) [0..<n] =
         map (\<lambda>(wordsA, wordsB). f wordsA wordsB) (zip (pad_pages n docA) (pad_pages n docB))"
proof (rule nth_equalityI)
  show "length (map (\<lambda>p. f (words_at docA p) (words_at docB p)) [0..<n]) =
        length (map (\<lambda>(wordsA, wordsB). f wordsA wordsB)
          (zip (pad_pages n docA) (pad_pages n docB)))"
    using assms by (simp add: length_pad_pages)
next
  fix p
  assume "p < length (map (\<lambda>p. f (words_at docA p) (words_at docB p)) [0..<n])"
  then have p: "p < n" by simp
  with assms show "map (\<lambda>p. f (words_at docA p) (words_at docB p)) [0..<n] ! p =
        map (\<lambda>(wordsA, wordsB). f wordsA wordsB)
          (zip (pad_pages n docA) (pad_pages n docB)) ! p"
    by (simp add: length_pad_pages words_at_pad [OF p])
qed

lemma word_diff_pages_spec: "word_diff_pages docA docB = spec_word_diff docA docB"
  by (simp add: word_diff_pages_def spec_word_diff_def Let_def page_red_spec page_green_spec
      pages_as_zip [of docA _ docB spec_left_page] pages_as_zip [of docA _ docB spec_right_page])


lemma opcodes_hello:
  "get_opcodes [py ''hello'', py ''world''] [py ''hello'', py ''there''] =
     [(Equal, 0, 1, 0, 1), (Replace, 1, 2, 1, 2)]"
  by code_simp

lemma word_diff_hello:
  assumes "map spec_token wl = [py ''hello'', py ''world'']"
    and "map spec_token wr = [py ''hello'', py ''there'']"
  shows "word_diff [wl] [wr] =
         ([\<lparr>red = [spec_bbox (wl ! 1)], green = []\<rparr>],
          [\<lparr>red = [], green = [spec_bbox (wr ! 1)]\<rparr>])"
proof -
  have u: "[Suc 0..<2] = [Suc 0]" by (simp add: numeral_2_eq_2)
  show ?thesis
    by (simp add: word_diff_as_map word_diff_pages_spec spec_word_diff_def pad_pages_def
        spec_left_page_def spec_right_page_def spec_page_opcodes_def assms opcodes_hello u)
qed

text \<open>
  C4. For every page, the word diff stage compares word tokens by their text only (the
  boxes are no part of the equality key); for every index in a left range covered by a
  Delete or Replace opcode it adds that word's box to the page's red list on the left,
  for every index in a right range covered by an Insert or Replace opcode it adds that
  word's box to the page's green list on the right, and Equal ranges add nothing. For
  \<open>hello world\<close> against \<open>hello there\<close>, exactly the box of \<open>world\<close> is in the left red
  list and exactly the box of \<open>there\<close> in the right green list; \<open>hello\<close> gives no box.
\<close>

theorem word_diff_highlights:
  "word_diff (pdf1 :: 'c word list list) pdf2 = spec_word_diff pdf1 pdf2 \<and>
   (map spec_token (wl :: 'c word list) = [py ''hello'', py ''world''] \<and>
    map spec_token wr = [py ''hello'', py ''there''] \<longrightarrow>
    word_diff [wl] [wr] =
      ([\<lparr>red = [spec_bbox (wl ! 1)], green = []\<rparr>],
       [\<lparr>red = [], green = [spec_bbox (wr ! 1)]\<rparr>]))"
  by (simp add: word_diff_as_map [of pdf1 pdf2] word_diff_pages_spec [of pdf1 pdf2]
      word_diff_hello)

text \<open>
  An example with three pages: \<open>hello world\<close> against \<open>hello there\<close> on page 1 (the two
  \<open>hello\<close> at different places), a word deleted on page 2, and a page 3 that only the
  second document has.
\<close>

lemma opcodes_word_examples:
  "get_opcodes [py ''a'', py ''b''] [py ''b''] = [(Delete, 0, 1, 0, 0), (Equal, 1, 2, 0, 1)]"
  "get_opcodes [] [py ''c''] = [(Insert, 0, 0, 0, 1)]"
  by code_simp+

lemma spec_word_diff_example:
  "spec_word_diff
     [[\<lparr>wtext = Some (py ''hello''), x0 = 0, top = 0, x1 = 5, bottom = 1\<rparr>,
       \<lparr>wtext = Some (py ''world''), x0 = 6, top = 0, x1 = 11, bottom = 1\<rparr>],
      [\<lparr>wtext = Some (py ''a''), x0 = 1, top = 2, x1 = 3, bottom = 4\<rparr>,
       \<lparr>wtext = Some (py ''b''), x0 = 5, top = 6, x1 = 7, bottom = 8 :: int\<rparr>]]
     [[\<lparr>wtext = Some (py ''hello''), x0 = 2, top = 3, x1 = 7, bottom = 4\<rparr>,
       \<lparr>wtext = Some (py ''there''), x0 = 8, top = 3, x1 = 13, bottom = 4\<rparr>],
      [\<lparr>wtext = Some (py ''b''), x0 = 9, top = 10, x1 = 11, bottom = 12\<rparr>],
      [\<lparr>wtext = Some (py ''c''), x0 = 13, top = 14, x1 = 15, bottom = 16 :: int\<rparr>]] =
   ([\<lparr>red = [(6, 0, 11, 1)], green = []\<rparr>,
     \<lparr>red = [(1, 2, 3, 4)], green = []\<rparr>,
     \<lparr>red = [], green = []\<rparr>],
    [\<lparr>red = [], green = [(8, 3, 13, 4)]\<rparr>,
     \<lparr>red = [], green = []\<rparr>,
     \<lparr>red = [], green = [(13, 14, 15, 16)]\<rparr>])"
proof -
  have u: "[Suc 0..<2] = [Suc 0]" "[0..<1] = [0]" by (simp_all add: numeral_2_eq_2)
  show ?thesis
    by (simp add: spec_word_diff_def Let_def pad_pages_def spec_left_page_def
        spec_right_page_def spec_page_opcodes_def spec_token_def opcodes_hello
        opcodes_word_examples spec_bbox_def u)
qed

theorem word_diff_highlights_witness:
  "word_diff
     [[\<lparr>wtext = Some (py ''hello''), x0 = 0, top = 0, x1 = 5, bottom = 1\<rparr>,
       \<lparr>wtext = Some (py ''world''), x0 = 6, top = 0, x1 = 11, bottom = 1\<rparr>],
      [\<lparr>wtext = Some (py ''a''), x0 = 1, top = 2, x1 = 3, bottom = 4\<rparr>,
       \<lparr>wtext = Some (py ''b''), x0 = 5, top = 6, x1 = 7, bottom = 8 :: int\<rparr>]]
     [[\<lparr>wtext = Some (py ''hello''), x0 = 2, top = 3, x1 = 7, bottom = 4\<rparr>,
       \<lparr>wtext = Some (py ''there''), x0 = 8, top = 3, x1 = 13, bottom = 4\<rparr>],
      [\<lparr>wtext = Some (py ''b''), x0 = 9, top = 10, x1 = 11, bottom = 12\<rparr>],
      [\<lparr>wtext = Some (py ''c''), x0 = 13, top = 14, x1 = 15, bottom = 16 :: int\<rparr>]] =
   ([\<lparr>red = [(6, 0, 11, 1)], green = []\<rparr>,
     \<lparr>red = [(1, 2, 3, 4)], green = []\<rparr>,
     \<lparr>red = [], green = []\<rparr>],
    [\<lparr>red = [], green = [(8, 3, 13, 4)]\<rparr>,
     \<lparr>red = [], green = []\<rparr>,
     \<lparr>red = [], green = [(13, 14, 15, 16)]\<rparr>]) \<and>
   word_diff
     [[\<lparr>wtext = Some (py ''hello''), x0 = 0, top = 0, x1 = 5, bottom = 1\<rparr>,
       \<lparr>wtext = Some (py ''world''), x0 = 6, top = 0, x1 = 11, bottom = 1 :: int\<rparr>]]
     [[\<lparr>wtext = Some (py ''hello''), x0 = 2, top = 3, x1 = 7, bottom = 4\<rparr>,
       \<lparr>wtext = Some (py ''there''), x0 = 8, top = 3, x1 = 13, bottom = 4 :: int\<rparr>]] =
   ([\<lparr>red = [(6, 0, 11, 1)], green = []\<rparr>], [\<lparr>red = [], green = [(8, 3, 13, 4)]\<rparr>])"
  using word_diff_highlights
    [of "[[\<lparr>wtext = Some (py ''hello''), x0 = 0, top = 0, x1 = 5, bottom = 1\<rparr>,
       \<lparr>wtext = Some (py ''world''), x0 = 6, top = 0, x1 = 11, bottom = 1\<rparr>],
      [\<lparr>wtext = Some (py ''a''), x0 = 1, top = 2, x1 = 3, bottom = 4\<rparr>,
       \<lparr>wtext = Some (py ''b''), x0 = 5, top = 6, x1 = 7, bottom = 8 :: int\<rparr>]]"
      "[[\<lparr>wtext = Some (py ''hello''), x0 = 2, top = 3, x1 = 7, bottom = 4\<rparr>,
       \<lparr>wtext = Some (py ''there''), x0 = 8, top = 3, x1 = 13, bottom = 4\<rparr>],
      [\<lparr>wtext = Some (py ''b''), x0 = 9, top = 10, x1 = 11, bottom = 12\<rparr>],
      [\<lparr>wtext = Some (py ''c''), x0 = 13, top = 14, x1 = 15, bottom = 16 :: int\<rparr>]]"
      "[\<lparr>wtext = Some (py ''hello''), x0 = 0, top = 0, x1 = 5, bottom = 1\<rparr>,
       \<lparr>wtext = Some (py ''world''), x0 = 6, top = 0, x1 = 11, bottom = 1 :: int\<rparr>]"
      "[\<lparr>wtext = Some (py ''hello''), x0 = 2, top = 3, x1 = 7, bottom = 4\<rparr>,
       \<lparr>wtext = Some (py ''there''), x0 = 8, top = 3, x1 = 13, bottom = 4 :: int\<rparr>]"]
  by (simp add: spec_word_diff_example spec_token_def spec_bbox_def)

subsection \<open>The matching blocks as a recursion over windows\<close>

text \<open>
  The loop of \<open>get_matching_blocks\<close> works off a stack of windows; the comment in
  \<open>difflib.py\<close> calls it a recursive algorithm made iterative. The recursion, which lists
  the blocks of a window from left to right, serves the proofs only.
\<close>

function rec_blocks :: "'a list \<Rightarrow> 'a list \<Rightarrow> 'a b2j \<Rightarrow> window \<Rightarrow> match list" where
  "rec_blocks a b b2j (alo, ahi, blo, bhi) =
     (case find_longest_match a b b2j alo ahi blo bhi of (i, j, k) \<Rightarrow>
        if k \<noteq> 0 then
          (if alo < i \<and> blo < j then rec_blocks a b b2j (alo, i, blo, j) else []) @
          [(i, j, k)] @
          (if i + k < ahi \<and> j + k < bhi then rec_blocks a b b2j (i + k, ahi, j + k, bhi) else [])
        else [])"
  by pat_completeness auto
termination
proof (relation "measure (\<lambda>(a, b, b2j, w). window_weight w)", goal_cases)
  case 1
  show ?case by simp
next
  case (2 a b b2j alo ahi blo bhi i y j k)
  then have f: "find_longest_match a b b2j alo ahi blo bhi = (i, j, k)" by simp
  have "best_ok alo ahi blo bhi (i, j, k)"
    using find_longest_match_ok [of alo ahi blo bhi a b b2j] by (simp add: f)
  with 2 show ?case by (auto simp: best_ok_def window_weight_def)
next
  case (3 a b b2j alo ahi blo bhi i y j k)
  then have f: "find_longest_match a b b2j alo ahi blo bhi = (i, j, k)" by simp
  have "best_ok alo ahi blo bhi (i, j, k)"
    using find_longest_match_ok [of alo ahi blo bhi a b b2j] by (simp add: f)
  with 3 show ?case by (auto simp: best_ok_def window_weight_def)
qed

declare rec_blocks.simps [simp del]

lemma match_loop_rec_blocks:
  "mset (match_loop a b b2j queue mbs) =
   mset mbs + (\<Sum>w\<leftarrow>queue. mset (rec_blocks a b b2j w))"
proof (induction a b b2j queue mbs rule: match_loop.induct)
  case (1 a b b2j queue mbs)
  show ?case
  proof (cases "queue = []")
    case True
    then show ?thesis by (simp add: match_loop_Nil)
  next
    case False
    obtain alo ahi blo bhi where w: "last queue = (alo, ahi, blo, bhi)"
      by (cases "last queue")
    obtain i j k where f: "find_longest_match a b b2j alo ahi blo bhi = (i, j, k)"
      by (cases "find_longest_match a b b2j alo ahi blo bhi")
    from False have q: "queue = butlast queue @ [(alo, ahi, blo, bhi)]"
      using w by (metis append_butlast_last_id)
    have split: "(\<Sum>w\<leftarrow>queue. mset (rec_blocks a b b2j w)) =
        (\<Sum>w\<leftarrow>butlast queue. mset (rec_blocks a b b2j w)) +
        mset (rec_blocks a b b2j (alo, ahi, blo, bhi))"
      by (subst q) simp
    show ?thesis
    proof (cases "k = 0")
      case True
      have "match_loop a b b2j queue mbs = match_loop a b b2j (butlast queue) mbs"
        using False w f True by (subst match_loop.simps) simp
      moreover have "rec_blocks a b b2j (alo, ahi, blo, bhi) = []"
        using f True by (subst rec_blocks.simps) simp
      moreover have "\<not> k \<noteq> 0" using True by simp
      note "1.IH"(2) [OF False w [symmetric] refl refl f [symmetric] refl this]
      ultimately show ?thesis using True by (simp add: split)
    next
      case nz: False
      let ?q = "butlast queue @
                  (if alo < i \<and> blo < j then [(alo, i, blo, j)] else []) @
                  (if i + k < ahi \<and> j + k < bhi then [(i + k, ahi, j + k, bhi)] else [])"
      have "match_loop a b b2j queue mbs = match_loop a b b2j ?q (mbs @ [(i, j, k)])"
        using False w f nz by (subst match_loop.simps) simp
      moreover have "mset (rec_blocks a b b2j (alo, ahi, blo, bhi)) =
          (if alo < i \<and> blo < j then mset (rec_blocks a b b2j (alo, i, blo, j)) else {#}) +
          {#(i, j, k)#} +
          (if i + k < ahi \<and> j + k < bhi then mset (rec_blocks a b b2j (i + k, ahi, j + k, bhi))
           else {#})"
        using f nz by (subst rec_blocks.simps) simp
      moreover note "1.IH"(1) [OF False w [symmetric] refl refl f [symmetric] refl nz]
      ultimately show ?thesis by (simp add: split)
    qed
  qed
qed

subsection \<open>Blocks in a row\<close>

text \<open>
  \<open>chain_to (i, j) ms (ei, ej)\<close>: the blocks \<open>ms\<close> follow one another without overlap in
  both sequences, the first starting at or after \<open>(i, j)\<close>, the last ending at or before
  \<open>(ei, ej)\<close>.
\<close>

fun chain_to :: "nat \<times> nat \<Rightarrow> match list \<Rightarrow> nat \<times> nat \<Rightarrow> bool" where
  "chain_to (i, j) [] (ei, ej) = (i \<le> ei \<and> j \<le> ej)"
| "chain_to (i, j) ((ai, bj, k) # ms) e = (i \<le> ai \<and> j \<le> bj \<and> chain_to (ai + k, bj + k) ms e)"

lemma chain_to_append:
  "chain_to p xs (ai, bj) \<Longrightarrow> chain_to (ai + k, bj + k) ys e \<Longrightarrow>
   chain_to p (xs @ (ai, bj, k) # ys) e"
  by (induction p xs "(ai, bj)" rule: chain_to.induct) simp_all

lemma chain_to_start_mono:
  "chain_to (i, j) ms e \<Longrightarrow> i' \<le> i \<Longrightarrow> j' \<le> j \<Longrightarrow> chain_to (i', j') ms e"
  by (cases ms; cases e) auto

lemma chain_to_end_mono:
  "chain_to p ms (ei, ej) \<Longrightarrow> ei \<le> ei' \<Longrightarrow> ej \<le> ej' \<Longrightarrow> chain_to p ms (ei', ej')"
  by (induction p ms "(ei, ej)" rule: chain_to.induct) auto

lemma chain_to_sentinel:
  "chain_to p ms (ei, ej) \<Longrightarrow> chain_to p (ms @ [(ei, ej, 0)]) (ei, ej)"
  by (induction p ms "(ei, ej)" rule: chain_to.induct) auto

lemma rec_blocks_chain:
  "alo \<le> ahi \<Longrightarrow> blo \<le> bhi \<Longrightarrow>
   chain_to (alo, blo) (rec_blocks a b b2j (alo, ahi, blo, bhi)) (ahi, bhi) \<and>
   (\<forall>m \<in> set (rec_blocks a b b2j (alo, ahi, blo, bhi)). 0 < snd (snd m))"
proof (induction a b b2j "(alo, ahi, blo, bhi)" arbitrary: alo ahi blo bhi rule: rec_blocks.induct)
  case (1 a b b2j alo ahi blo bhi)
  obtain i j k where f: "find_longest_match a b b2j alo ahi blo bhi = (i, j, k)"
    by (cases "find_longest_match a b b2j alo ahi blo bhi")
  show ?case
  proof (cases "k = 0")
    case True
    with f have "rec_blocks a b b2j (alo, ahi, blo, bhi) = []"
      by (subst rec_blocks.simps) simp
    with 1(3,4) show ?thesis by simp
  next
    case nz: False
    have "best_ok alo ahi blo bhi (i, j, k)"
      using find_longest_match_ok [of alo ahi blo bhi a b b2j] by (simp add: f)
    with nz have bnd: "alo \<le> i" "i + k \<le> ahi" "blo \<le> j" "j + k \<le> bhi"
      by (auto simp: best_ok_def)
    let ?L = "if alo < i \<and> blo < j then rec_blocks a b b2j (alo, i, blo, j) else []"
    let ?R = "if i + k < ahi \<and> j + k < bhi then rec_blocks a b b2j (i + k, ahi, j + k, bhi)
              else []"
    have eq: "rec_blocks a b b2j (alo, ahi, blo, bhi) = ?L @ (i, j, k) # ?R"
      using f nz by (subst rec_blocks.simps) simp
    have L: "chain_to (alo, blo) ?L (i, j) \<and> (\<forall>m \<in> set ?L. 0 < snd (snd m))"
    proof (cases "alo < i \<and> blo < j")
      case True
      with "1.hyps"(1) [OF f [symmetric] refl nz True] show ?thesis by simp
    next
      case False
      then have "?L = []" by auto
      with bnd show ?thesis by simp
    qed
    have R: "chain_to (i + k, j + k) ?R (ahi, bhi) \<and> (\<forall>m \<in> set ?R. 0 < snd (snd m))"
    proof (cases "i + k < ahi \<and> j + k < bhi")
      case True
      with "1.hyps"(2) [OF f [symmetric] refl nz True] show ?thesis by simp
    next
      case False
      then have "?R = []" by auto
      with bnd show ?thesis by simp
    qed
    from L R nz show ?thesis
      unfolding eq by (auto intro: chain_to_append)
  qed
qed

lemma chain_to_lower:
  "chain_to (i, j) ms e \<Longrightarrow> m \<in> set ms \<Longrightarrow> i \<le> fst m"
proof (induction "(i, j)" ms e arbitrary: i j rule: chain_to.induct)
  case (1 i j ei ej)
  then show ?case by simp
next
  case (2 i j ai bj k ms e)
  then show ?case by fastforce
qed

lemma chain_to_sorted:
  "chain_to (i, j) ms e \<Longrightarrow> \<forall>m \<in> set ms. 0 < snd (snd m) \<Longrightarrow> sorted ms"
proof (induction "(i, j)" ms e arbitrary: i j rule: chain_to.induct)
  case (1 i j ei ej)
  then show ?case by simp
next
  case (2 i j ai bj k ms e)
  have "(ai, bj, k) \<le> m" if "m \<in> set ms" for m
  proof -
    from chain_to_lower [of "ai + k" "bj + k" ms e m] 2(2) that have "ai + k \<le> fst m" by simp
    moreover from 2(3) have "0 < k" by simp
    ultimately have "ai < fst m" by simp
    then show ?thesis by (cases m) (simp add: less_eq_prod_def)
  qed
  with 2 show ?case by simp
qed

lemma sort_match_loop:
  "sort (match_loop a b b2j [(0, la, 0, lb)] []) = rec_blocks a b b2j (0, la, 0, lb)"
proof (rule properties_for_sort)
  show "mset (rec_blocks a b b2j (0, la, 0, lb)) = mset (match_loop a b b2j [(0, la, 0, lb)] [])"
    by (simp add: match_loop_rec_blocks)
  from rec_blocks_chain [of 0 la 0 lb a b b2j]
  show "sorted (rec_blocks a b b2j (0, la, 0, lb))"
    by (auto intro: chain_to_sorted)
qed

lemma chain_to_suffix_cong:
  "(\<And>q. chain_to q ys e \<Longrightarrow> chain_to q ys' e) \<Longrightarrow>
   chain_to p (xs @ ys) e \<Longrightarrow> chain_to p (xs @ ys') e"
proof (induction xs arbitrary: p)
  case Nil
  then show ?case by simp
next
  case (Cons m xs)
  obtain i j where p: "p = (i, j)" by (cases p)
  obtain ai bj k where m: "m = (ai, bj, k)" by (cases m)
  from Cons show ?case by (simp add: p m)
qed

lemma chain_to_merge:
  "i1 + k1 = i2 \<and> j1 + k1 = j2 \<Longrightarrow>
   chain_to q ((i1, j1, k1) # (i2, j2, k2) # rs) e \<Longrightarrow> chain_to q ((i1, j1, k1 + k2) # rs) e"
  by (cases q) (auto simp: add.assoc)

lemma chain_to_drop_empty:
  "chain_to q ((i1, j1, 0) # rs) e \<Longrightarrow> chain_to q rs e"
  by (cases q) (auto intro: chain_to_start_mono)

lemma collapse_fold_chain:
  "chain_to p (na @ (i1, j1, k1) # rs) e \<Longrightarrow>
   foldl collapse_step ((i1, j1, k1), na) rs = ((i1', j1', k1'), na') \<Longrightarrow>
   chain_to p (na' @ [(i1', j1', k1')]) e"
proof (induction rs arbitrary: i1 j1 k1 na)
  case Nil
  then show ?case by simp
next
  case (Cons m rs)
  obtain i2 j2 k2 where m: "m = (i2, j2, k2)" by (cases m)
  show ?case
  proof (cases "i1 + k1 = i2 \<and> j1 + k1 = j2")
    case True
    have "chain_to p (na @ (i1, j1, k1 + k2) # rs) e"
      using Cons.prems(1) unfolding m
      by (rule chain_to_suffix_cong [rotated]) (rule chain_to_merge [OF True])
    moreover have "collapse_step ((i1, j1, k1), na) m = ((i1, j1, k1 + k2), na)"
      using True by (simp add: m collapse_step_def)
    with Cons.prems(2)
    have "foldl collapse_step ((i1, j1, k1 + k2), na) rs = ((i1', j1', k1'), na')"
      by (simp only: foldl_Cons)
    ultimately show ?thesis by (rule Cons.IH)
  next
    case adj: False
    show ?thesis
    proof (cases "k1 = 0")
      case True
      have "chain_to p (na @ (i2, j2, k2) # rs) e"
        using Cons.prems(1) unfolding m True
        by (rule chain_to_suffix_cong [rotated]) (rule chain_to_drop_empty)
      moreover have "collapse_step ((i1, j1, k1), na) m = ((i2, j2, k2), na)"
        using adj True by (auto simp: m collapse_step_def)
      with Cons.prems(2)
      have "foldl collapse_step ((i2, j2, k2), na) rs = ((i1', j1', k1'), na')"
        by (simp only: foldl_Cons)
      ultimately show ?thesis by (rule Cons.IH)
    next
      case False
      have "chain_to p ((na @ [(i1, j1, k1)]) @ (i2, j2, k2) # rs) e"
        using Cons.prems(1) by (simp add: m)
      moreover have "collapse_step ((i1, j1, k1), na) m = ((i2, j2, k2), na @ [(i1, j1, k1)])"
        using adj False by (auto simp: m collapse_step_def)
      with Cons.prems(2)
      have "foldl collapse_step ((i2, j2, k2), na @ [(i1, j1, k1)]) rs =
                     ((i1', j1', k1'), na')"
        by (simp only: foldl_Cons)
      ultimately show ?thesis by (rule Cons.IH)
    qed
  qed
qed

lemma collapse_chain:
  assumes "chain_to (0, 0) ms e"
  shows "chain_to (0, 0) (collapse ms) e"
proof -
  obtain m1 na where f1: "foldl collapse_step ((0, 0, 0), []) ms = (m1, na)"
    by (cases "foldl collapse_step ((0, 0, 0), []) ms")
  obtain i1 j1 k1 where "m1 = (i1, j1, k1)" by (cases m1)
  with f1 have f: "foldl collapse_step ((0, 0, 0), []) ms = ((i1, j1, k1), na)" by simp
  from assms have "chain_to (0, 0) ([] @ (0, 0, 0) # ms) e" by simp
  from collapse_fold_chain [OF this f] have c: "chain_to (0, 0) (na @ [(i1, j1, k1)]) e" .
  show ?thesis
  proof (cases "k1 = 0")
    case True
    from c have "chain_to (0, 0) (na @ []) e"
      unfolding True by (rule chain_to_suffix_cong [rotated]) (rule chain_to_drop_empty)
    with True show ?thesis by (simp add: collapse_def f)
  next
    case False
    with c show ?thesis by (simp add: collapse_def f)
  qed
qed

lemma get_matching_blocks_chain:
  "chain_to (0, 0) (get_matching_blocks a b) (length a, length b)"
proof -
  from rec_blocks_chain [of 0 "length a" 0 "length b" a b "chain_b b"]
  have "chain_to (0, 0) (rec_blocks a b (chain_b b) (0, length a, 0, length b))
          (length a, length b)"
    by simp
  then show ?thesis
    by (simp add: get_matching_blocks_def Let_def sort_match_loop collapse_chain
        chain_to_sentinel)
qed

subsection \<open>The opcodes tile both sequences\<close>

text \<open>
  \<open>tiles (i, j) ops (ei, ej)\<close>: the left ranges of the opcodes are intervals that follow one
  another from \<open>i\<close> to \<open>ei\<close> with neither a gap nor an overlap, and the right ranges do
  so from \<open>j\<close> to \<open>ej\<close>.
\<close>

fun tiles :: "nat \<times> nat \<Rightarrow> opcode list \<Rightarrow> nat \<times> nat \<Rightarrow> bool" where
  "tiles (i, j) [] e = ((i, j) = e)"
| "tiles (i, j) ((tag, i1, i2, j1, j2) # ops) e =
     (i1 = i \<and> j1 = j \<and> i \<le> i2 \<and> j \<le> j2 \<and> tiles (i2, j2) ops e)"

definition left_part :: "'a list \<Rightarrow> opcode \<Rightarrow> 'a list" where
  \<comment> \<open>\<open>a[i1:i2]\<close>\<close>
  "left_part a opc = (case opc of (tag, i1, i2, j1, j2) \<Rightarrow> slice a i1 i2)"

definition right_part :: "'a list \<Rightarrow> opcode \<Rightarrow> 'a list" where
  \<comment> \<open>\<open>b[j1:j2]\<close>\<close>
  "right_part b opc = (case opc of (tag, i1, i2, j1, j2) \<Rightarrow> slice b j1 j2)"

fun endpos :: "nat \<times> nat \<Rightarrow> match list \<Rightarrow> nat \<times> nat" where
  "endpos p [] = p"
| "endpos p ((ai, bj, k) # ms) = endpos (ai + k, bj + k) ms"

lemma endpos_snoc: "endpos p (ms @ [(ai, bj, k)]) = (ai + k, bj + k)"
  by (induction p ms rule: endpos.induct) simp_all

lemma tiles_snoc:
  "tiles s ops (i, j) \<Longrightarrow> i \<le> i2 \<Longrightarrow> j \<le> j2 \<Longrightarrow>
   tiles s (ops @ [(tag, i, i2, j, j2)]) (i2, j2)"
  by (induction s ops "(i, j)" rule: tiles.induct) simp_all

lemma opcode_step_tiles:
  assumes "tiles s ans (i, j)" "i \<le> ai" "j \<le> bj"
  shows "\<exists>ans'. opcode_step (i, j, ans) (ai, bj, sz) = (ai + sz, bj + sz, ans') \<and>
           tiles s ans' (ai + sz, bj + sz)"
proof -
  let ?ans1 = "if i < ai \<and> j < bj then ans @ [(Replace, i, ai, j, bj)]
               else if i < ai then ans @ [(Delete, i, ai, j, bj)]
               else if j < bj then ans @ [(Insert, i, ai, j, bj)]
               else ans"
  have 1: "tiles s ?ans1 (ai, bj)"
    using assms by (auto intro: tiles_snoc)
  have 2: "tiles s (if sz \<noteq> 0 then ?ans1 @ [(Equal, ai, ai + sz, bj, bj + sz)] else ?ans1)
             (ai + sz, bj + sz)"
  proof (cases "sz = 0")
    case True
    with 1 show ?thesis by simp
  next
    case False
    from tiles_snoc [OF 1, of "ai + sz" "bj + sz" Equal] False show ?thesis by simp
  qed
  have "opcode_step (i, j, ans) (ai, bj, sz) =
        (ai + sz, bj + sz,
         if sz \<noteq> 0 then ?ans1 @ [(Equal, ai, ai + sz, bj, bj + sz)] else ?ans1)"
    by (simp add: opcode_step_def Let_def)
  with 2 show ?thesis by blast
qed

lemma opcode_fold_tiles:
  "chain_to (i, j) ms e \<Longrightarrow> tiles s ans (i, j) \<Longrightarrow>
   tiles s (snd (snd (foldl opcode_step (i, j, ans) ms))) (endpos (i, j) ms)"
proof (induction ms arbitrary: i j ans)
  case Nil
  then show ?case by simp
next
  case (Cons m ms)
  obtain ai bj sz where m: "m = (ai, bj, sz)" by (cases m)
  from Cons.prems(1) have c: "i \<le> ai" "j \<le> bj" "chain_to (ai + sz, bj + sz) ms e"
    by (simp_all add: m)
  from opcode_step_tiles [OF Cons.prems(2) c(1,2), of sz]
  obtain ans' where s: "opcode_step (i, j, ans) (ai, bj, sz) = (ai + sz, bj + sz, ans')"
    and t: "tiles s ans' (ai + sz, bj + sz)"
    by blast
  from Cons.IH [OF c(3) t] show ?case by (simp add: m s)
qed

lemma get_opcodes_tiles: "tiles (0, 0) (get_opcodes a b) (length a, length b)"
proof -
  have t: "tiles (0, 0) [] (0, 0)" by simp
  have e: "endpos (0, 0) (get_matching_blocks a b) = (length a, length b)"
    by (simp add: get_matching_blocks_def Let_def endpos_snoc)
  from opcode_fold_tiles [OF get_matching_blocks_chain t, of a b] show ?thesis
    by (simp add: get_opcodes_def e)
qed

lemma tiles_le: "tiles (i, j) ops (n, m) \<Longrightarrow> i \<le> n \<and> j \<le> m"
proof (induction "(i, j)" ops "(n, m)" arbitrary: i j rule: tiles.induct)
  case (1 i j)
  then show ?case by simp
next
  case (2 i j tag i1 i2 j1 j2 ops)
  then show ?case by fastforce
qed

lemma slice_append: "i \<le> i2 \<Longrightarrow> i2 \<le> n \<Longrightarrow> slice a i i2 @ slice a i2 n = slice a i n"
proof -
  assume "i \<le> i2" "i2 \<le> n"
  then have "n - i = (i2 - i) + (n - i2)" by simp
  then have "take (n - i) (drop i a) =
             take (i2 - i) (drop i a) @ take (n - i2) (drop (i2 - i) (drop i a))"
    by (simp only: take_add)
  with \<open>i \<le> i2\<close> show ?thesis by (simp add: slice_def)
qed

lemma tiles_concat_left:
  "tiles (i, j) ops (n, m) \<Longrightarrow> concat (map (left_part a) ops) = slice a i n"
proof (induction "(i, j)" ops "(n, m)" arbitrary: i j rule: tiles.induct)
  case (1 i j)
  then show ?case by (simp add: slice_def)
next
  case (2 i j tag i1 i2 j1 j2 ops)
  from 2(2) have t: "tiles (i2, j2) ops (n, m)" "i1 = i" "i \<le> i2" by simp_all
  from tiles_le [OF t(1)] have "i2 \<le> n" by simp
  with 2(1) [OF t(1)] t show ?case
    by (simp add: left_part_def slice_append)
qed

lemma tiles_concat_right:
  "tiles (i, j) ops (n, m) \<Longrightarrow> concat (map (right_part b) ops) = slice b j m"
proof (induction "(i, j)" ops "(n, m)" arbitrary: i j rule: tiles.induct)
  case (1 i j)
  then show ?case by (simp add: slice_def)
next
  case (2 i j tag i1 i2 j1 j2 ops)
  from 2(2) have t: "tiles (i2, j2) ops (n, m)" "j1 = j" "j \<le> j2" by simp_all
  from tiles_le [OF t(1)] have "j2 \<le> m" by simp
  with 2(1) [OF t(1)] t show ?case
    by (simp add: right_part_def slice_append)
qed

text \<open>
  C1. For any two token sequences (the lines of a page in the line pass, the word texts
  of a page in the word pass) the opcodes cover both sequences completely, without gap
  and without overlap; the left ranges concatenated give the left sequence, the right
  ranges the right sequence.
\<close>

theorem opcodes_cover:
  "tiles (0, 0) (get_opcodes a b) (length a, length b) \<and>
   concat (map (left_part a) (get_opcodes a b)) = a \<and>
   concat (map (right_part b) (get_opcodes a b)) = b"
  using tiles_concat_left [OF get_opcodes_tiles, of a a b]
    tiles_concat_right [OF get_opcodes_tiles, of b a b]
  by (simp add: get_opcodes_tiles slice_def)

theorem opcodes_cover_witness:
  "get_opcodes (py ''qabxcd'') (py ''abycdf'') =
     [(Delete, 0, 1, 0, 0), (Equal, 1, 3, 0, 2), (Replace, 3, 4, 2, 3), (Equal, 4, 6, 3, 5),
      (Insert, 6, 6, 5, 6)] \<and>
   tiles (0, 0) (get_opcodes (py ''qabxcd'') (py ''abycdf'')) (6, 6)"
proof -
  have "get_opcodes (py ''qabxcd'') (py ''abycdf'') =
     [(Delete, 0, 1, 0, 0), (Equal, 1, 3, 0, 2), (Replace, 3, 4, 2, 3), (Equal, 4, 6, 3, 5),
      (Insert, 6, 6, 5, 6)]"
    by code_simp
  moreover have "length (py ''qabxcd'') = 6" "length (py ''abycdf'') = 6"
    by (simp_all add: py_def)
  ultimately show ?thesis
    using opcodes_cover [of "py ''qabxcd''" "py ''abycdf''"] by simp
qed

subsection \<open>What \<open>__chain_b\<close> builds\<close>

definition positions :: "'a \<Rightarrow> 'a list \<Rightarrow> nat list" where
  "positions x b = filter (\<lambda>j. b ! j = x) [0..<length b]"

definition popular :: "'a list \<Rightarrow> 'a \<Rightarrow> bool" where
  \<comment> \<open>the elements \<open>autojunk\<close> purges from \<open>b2j\<close>\<close>
  "popular b x \<longleftrightarrow> length b \<ge> 200 \<and> length (positions x b) > length b div 100 + 1"

lemma positions_snoc:
  "positions x (b @ [y]) = positions x b @ (if y = x then [length b] else [])"
proof -
  have "filter (\<lambda>j. (b @ [y]) ! j = x) [0..<length b] = filter (\<lambda>j. b ! j = x) [0..<length b]"
    by (rule filter_cong) (simp_all add: nth_append)
  then show ?thesis by (simp add: positions_def)
qed

lemma positions_Nil: "positions x [] = []"
  by (simp add: positions_def)

lemma positions_empty_iff: "positions x b = [] \<longleftrightarrow> x \<notin> set b"
  by (auto simp: positions_def filter_empty_conv in_set_conv_nth)

lemma positions_notin: "x \<notin> set b \<Longrightarrow> positions x b = []"
  by (simp add: positions_empty_iff)

lemma chain_steps:
  "distinct (map fst (foldl chain_step [] (enumerate 0 b))) \<and>
   map_of (foldl chain_step [] (enumerate 0 b)) x =
     (if x \<in> set b then Some (positions x b) else None)"
proof (induction b arbitrary: x rule: rev_induct)
  case Nil
  then show ?case by simp
next
  case (snoc y b)
  let ?d = "foldl chain_step [] (enumerate 0 b)"
  have e: "foldl chain_step [] (enumerate 0 (b @ [y])) =
           AList.update y (dict_get ?d y [] @ [length b]) ?d"
    by (simp add: enumerate_append_eq chain_step_def)
  have g: "dict_get ?d y [] = positions y b"
    using snoc [of y] by (auto simp: dict_get_def positions_notin)
  from snoc [of x] show ?case
    unfolding e g by (auto simp: distinct_update update_conv' positions_snoc)
qed

lemma map_of_deletes:
  "map_of (foldl (\<lambda>d elt. AList.delete elt d) d ks) x =
   (if x \<in> set ks then None else map_of d x)"
  by (induction ks arbitrary: d) (simp_all add: delete_conv')

lemma popular_keys_iff:
  "distinct (map fst d) \<Longrightarrow>
   x \<in> set (popular_keys d ntest) \<longleftrightarrow> (\<exists>idxs. map_of d x = Some idxs \<and> length idxs > ntest)"
  by (force simp: popular_keys_def)

lemma chain_b_get:
  "dict_get (chain_b b) x [] = (if popular b x then [] else positions x b)"
proof -
  let ?d = "foldl chain_step [] (enumerate 0 b)"
  note c = chain_steps [of b x]
  show ?thesis
  proof (cases "length b \<ge> 200")
    case False
    with c show ?thesis
      by (auto simp: chain_b_def Let_def dict_get_def popular_def positions_notin)
  next
    case True
    have p: "x \<in> set (popular_keys ?d (length b div 100 + 1)) \<longleftrightarrow> popular b x"
      using c True by (auto simp: popular_keys_iff popular_def positions_notin)
    have cb: "chain_b b = foldl (\<lambda>d elt. AList.delete elt d) ?d
                (popular_keys ?d (length b div 100 + 1))"
      using True by (simp add: chain_b_def Let_def)
    have "map_of (chain_b b) x = (if popular b x then None else map_of ?d x)"
      unfolding cb map_of_deletes p ..
    with c show ?thesis
      by (auto simp: dict_get_def positions_notin)
  qed
qed

subsection \<open>What the loop over \<open>range(alo, ahi)\<close> computes\<close>

text \<open>
  \<open>run P a b alo blo i j\<close> is the length of the longest block of equal elements, none of
  them in \<open>P\<close>, that ends with \<open>a[i]\<close> and \<open>b[j]\<close> and starts at or after \<open>(alo, blo)\<close>.
  It is what \<open>j2len[j]\<close> holds after round \<open>i\<close>, with \<open>P\<close> the popular elements.
\<close>

fun run :: "('a \<Rightarrow> bool) \<Rightarrow> 'a list \<Rightarrow> 'a list \<Rightarrow> nat \<Rightarrow> nat \<Rightarrow> nat \<Rightarrow> nat \<Rightarrow> nat" where
  "run P a b alo blo 0 j =
     (if alo = 0 \<and> blo \<le> j \<and> a ! 0 = b ! j \<and> \<not> P (b ! j) then 1 else 0)"
| "run P a b alo blo (Suc i) j =
     (if alo \<le> Suc i \<and> blo \<le> j \<and> a ! Suc i = b ! j \<and> \<not> P (b ! j)
      then (if alo = Suc i \<or> j = blo then 1 else run P a b alo blo i (j - 1) + 1)
      else 0)"

lemma run_unfold:
  "run P a b alo blo i j =
     (if alo \<le> i \<and> blo \<le> j \<and> a ! i = b ! j \<and> \<not> P (b ! j)
      then (if i = alo \<or> j = blo then 1 else run P a b alo blo (i - 1) (j - 1) + 1)
      else 0)"
  by (cases i) auto

definition upd :: "(nat \<Rightarrow> nat \<Rightarrow> nat) \<Rightarrow> nat \<Rightarrow> match \<Rightarrow> nat \<Rightarrow> match" where
  \<comment> \<open>the best match after looking at the cell \<open>(i, j)\<close>\<close>
  "upd r i best j =
     (case best of (besti, bestj, bestsize) \<Rightarrow>
        if r i j > bestsize then (i + 1 - r i j, j + 1 - r i j, r i j) else best)"

definition in_window :: "nat \<Rightarrow> nat \<Rightarrow> nat \<Rightarrow> bool" where
  "in_window blo bhi j \<longleftrightarrow> blo \<le> j \<and> j < bhi"

lemma scan_row_eq:
  assumes "sorted js"
    and "\<And>j. j \<in> set js \<Longrightarrow> in_window blo bhi j \<Longrightarrow> j2lenget j2len j + 1 = r i j"
  shows "scan_row j2len i blo bhi js (new, best) =
         ((\<lambda>j. if j \<in> set js \<and> in_window blo bhi j then Some (r i j) else new j),
          foldl (upd r i) best (filter (in_window blo bhi) js))"
  using assms
proof (induction js arbitrary: new best)
  case Nil
  then show ?case by simp
next
  case (Cons j js)
  obtain bi bj bs where best: "best = (bi, bj, bs)" by (cases best)
  from Cons.prems(1) have s: "sorted js" and ge: "\<forall>j' \<in> set js. j \<le> j'" by simp_all
  have p2: "\<And>j'. j' \<in> set js \<Longrightarrow> in_window blo bhi j' \<Longrightarrow> j2lenget j2len j' + 1 = r i j'"
    using Cons.prems(2) by simp
  note ih = Cons.IH [OF s p2]
  show ?case
  proof (cases "j < blo")
    case True
    then have "\<not> in_window blo bhi j" by (simp add: in_window_def)
    with True ih [of new best] show ?thesis
      by (auto simp: best fun_eq_iff)
  next
    case lo: False
    show ?thesis
    proof (cases "j \<ge> bhi")
      case True
      with ge have "\<forall>j' \<in> set (j # js). \<not> in_window blo bhi j'"
        by (auto simp: in_window_def)
      then have "filter (in_window blo bhi) (j # js) = []"
        and "(\<lambda>j'. if j' \<in> set (j # js) \<and> in_window blo bhi j' then Some (r i j') else new j')
             = new"
        by (auto simp: filter_empty_conv fun_eq_iff)
      moreover have "scan_row j2len i blo bhi (j # js) (new, best) = (new, best)"
        using lo True by (simp add: best)
      ultimately show ?thesis by (simp only: foldl_Nil)
    next
      case hi: False
      with lo have w: "in_window blo bhi j" by (simp add: in_window_def)
      from Cons.prems(2) [of j] w have k: "j2lenget j2len j + 1 = r i j" by simp
      have "scan_row j2len i blo bhi (j # js) (new, best) =
            scan_row j2len i blo bhi js (new(j \<mapsto> r i j), upd r i best j)"
        using lo hi by (simp add: best Let_def k [simplified] upd_def del: fun_upd_apply)
      also have "\<dots> =
        ((\<lambda>j'. if j' \<in> set js \<and> in_window blo bhi j' then Some (r i j')
               else (new(j \<mapsto> r i j)) j'),
         foldl (upd r i) (upd r i best j) (filter (in_window blo bhi) js))"
        by (rule ih)
      finally show ?thesis using w by (auto simp: fun_eq_iff)
    qed
  qed
qed

definition rowmap :: "'a list \<Rightarrow> 'a list \<Rightarrow> nat \<Rightarrow> nat \<Rightarrow> nat \<Rightarrow> nat \<Rightarrow> (nat \<rightharpoonup> nat)" where
  \<comment> \<open>\<open>j2len\<close> when round \<open>n\<close> begins\<close>
  "rowmap a b alo blo bhi n =
     (\<lambda>j. if alo < n \<and> \<not> popular b (a ! (n - 1)) \<and> j < length b \<and> b ! j = a ! (n - 1) \<and>
             in_window blo bhi j
          then Some (run (popular b) a b alo blo (n - 1) j) else None)"

lemma set_positions: "set (positions x b) = {j. j < length b \<and> b ! j = x}"
  by (auto simp: positions_def)

lemma sorted_positions: "sorted (positions x b)"
  by (simp add: positions_def sorted_wrt_filter)

lemma k_value:
  assumes "bhi \<le> length b" "alo \<le> i" "j < length b" "b ! j = a ! i"
    "\<not> popular b (a ! i)" "in_window blo bhi j"
  shows "j2lenget (rowmap a b alo blo bhi i) j + 1 = run (popular b) a b alo blo i j"
proof -
  from assms have w: "blo \<le> j" "j < bhi" by (simp_all add: in_window_def)
  have r: "run (popular b) a b alo blo i j =
           (if i = alo \<or> j = blo then 1 else run (popular b) a b alo blo (i - 1) (j - 1) + 1)"
    using assms w by (subst run_unfold) simp
  show ?thesis
  proof (cases "i = alo \<or> j = blo")
    case True
    then have "j2lenget (rowmap a b alo blo bhi i) j = 0"
      by (auto simp: j2lenget_def rowmap_def in_window_def)
    with True r show ?thesis by simp
  next
    case False
    with assms w have c: "alo < i" "blo \<le> j - 1" "j - 1 < bhi" "j - 1 < length b" "j \<noteq> 0"
      by auto
    show ?thesis
    proof (cases "\<not> popular b (a ! (i - 1)) \<and> b ! (j - 1) = a ! (i - 1)")
      case True
      with c have "j2lenget (rowmap a b alo blo bhi i) j =
                   run (popular b) a b alo blo (i - 1) (j - 1)"
        by (simp add: j2lenget_def rowmap_def in_window_def)
      with False r show ?thesis by simp
    next
      case nm: False
      with c have "j2lenget (rowmap a b alo blo bhi i) j = 0"
        by (auto simp: j2lenget_def rowmap_def in_window_def)
      moreover have "run (popular b) a b alo blo (i - 1) (j - 1) = 0"
        using nm by (subst run_unfold) auto
      ultimately show ?thesis using False r by simp
    qed
  qed
qed

lemma upd_noop: "r i j = 0 \<Longrightarrow> upd r i best j = best"
  by (cases best) (simp add: upd_def)

lemma foldl_upd_filter:
  "\<forall>j \<in> set xs. \<not> Q j \<longrightarrow> r i j = 0 \<Longrightarrow>
   foldl (upd r i) best (filter Q xs) = foldl (upd r i) best xs"
  by (induction xs arbitrary: best) (simp_all add: upd_noop)

lemma filter_window_upt:
  "bhi \<le> n \<Longrightarrow> filter (in_window blo bhi) [0..<n] = [blo..<bhi]"
  by (rule sorted_distinct_set_unique) (auto simp: in_window_def sorted_wrt_filter)

lemma filter_window_positions:
  "bhi \<le> length b \<Longrightarrow>
   filter (in_window blo bhi) (positions x b) = filter (\<lambda>j. b ! j = x) [blo..<bhi]"
proof -
  assume "bhi \<le> length b"
  then have "filter (\<lambda>j. b ! j = x) (filter (in_window blo bhi) [0..<length b]) =
             filter (\<lambda>j. b ! j = x) [blo..<bhi]"
    by (simp only: filter_window_upt)
  then show ?thesis
    by (simp add: positions_def conj_commute)
qed

definition scan_cells :: "(nat \<Rightarrow> nat \<Rightarrow> nat) \<Rightarrow> nat \<Rightarrow> nat \<Rightarrow> match \<Rightarrow> nat list \<Rightarrow> match" where
  \<comment> \<open>all cells of the given rows, row by row, each row from \<open>blo\<close> to \<open>bhi\<close>\<close>
  "scan_cells r blo bhi best rows = foldl (\<lambda>best i. foldl (upd r i) best [blo..<bhi]) best rows"

lemma row_step_eq:
  assumes "bhi \<le> length b" "alo \<le> i"
  shows "row_step a (chain_b b) blo bhi (rowmap a b alo blo bhi i, best) i =
         (rowmap a b alo blo bhi (Suc i),
          foldl (upd (run (popular b) a b alo blo) i) best [blo..<bhi])"
proof -
  let ?r = "run (popular b) a b alo blo"
  let ?js = "dict_get (chain_b b) (a ! i) []"
  have js: "?js = (if popular b (a ! i) then [] else positions (a ! i) b)"
    by (rule chain_b_get)
  have s: "sorted ?js" by (simp add: js sorted_positions)
  have k: "j2lenget (rowmap a b alo blo bhi i) j + 1 = ?r i j"
    if "j \<in> set ?js" "in_window blo bhi j" for j
  proof -
    from that(1) have "\<not> popular b (a ! i)" "j < length b" "b ! j = a ! i"
      by (auto simp: js set_positions split: if_splits)
    with assms that(2) show ?thesis by (intro k_value) simp_all
  qed
  have m: "(\<lambda>j. if j \<in> set ?js \<and> in_window blo bhi j then Some (?r i j) else Map.empty j) =
           rowmap a b alo blo bhi (Suc i)"
    using assms(2) by (auto simp: fun_eq_iff js set_positions rowmap_def)
  have f: "foldl (upd ?r i) best (filter (in_window blo bhi) ?js) =
           foldl (upd ?r i) best [blo..<bhi]"
  proof (cases "popular b (a ! i)")
    case True
    have "?r i j = 0" for j
      using True by (subst run_unfold) auto
    then have "foldl (upd ?r i) best (filter (\<lambda>j. False) [blo..<bhi]) =
               foldl (upd ?r i) best [blo..<bhi]"
      by (intro foldl_upd_filter) simp
    with True show ?thesis by (simp add: js)
  next
    case False
    have "?r i j = 0" if "b ! j \<noteq> a ! i" for j
      using that by (subst run_unfold) auto
    then have "foldl (upd ?r i) best (filter (\<lambda>j. b ! j = a ! i) [blo..<bhi]) =
               foldl (upd ?r i) best [blo..<bhi]"
      by (intro foldl_upd_filter) simp
    with False assms(1) show ?thesis by (simp add: js filter_window_positions)
  qed
  have "scan_row (rowmap a b alo blo bhi i) i blo bhi ?js (Map.empty, best) =
        ((\<lambda>j. if j \<in> set ?js \<and> in_window blo bhi j then Some (?r i j) else Map.empty j),
         foldl (upd ?r i) best (filter (in_window blo bhi) ?js))"
    using s k by (rule scan_row_eq)
  then show ?thesis
    unfolding row_step_def prod.case by (simp only: m f)
qed

lemma rows_eq:
  assumes "bhi \<le> length b"
  shows "alo \<le> n \<Longrightarrow>
     foldl (row_step a (chain_b b) blo bhi) (Map.empty, best) [alo..<n] =
     (rowmap a b alo blo bhi n, scan_cells (run (popular b) a b alo blo) blo bhi best [alo..<n])"
proof (induction n)
  case 0
  then show ?case by (simp add: rowmap_def scan_cells_def)
next
  case (Suc n)
  show ?case
  proof (cases "alo \<le> n")
    case False
    with Suc.prems have "alo = Suc n" by simp
    then show ?thesis by (simp add: rowmap_def scan_cells_def)
  next
    case True
    from Suc.IH [OF True] row_step_eq [OF assms True, of a] True show ?thesis
      by (simp add: scan_cells_def)
  qed
qed

lemma longest_junk_free_eq:
  assumes "bhi \<le> length b"
  shows "longest_junk_free a (chain_b b) alo ahi blo bhi =
         scan_cells (run (popular b) a b alo blo) blo bhi (alo, blo, 0) [alo..<ahi]"
proof (cases "alo \<le> ahi")
  case True
  from rows_eq [OF assms True] show ?thesis by (simp add: longest_junk_free_def)
next
  case False
  then show ?thesis by (simp add: longest_junk_free_def scan_cells_def)
qed

subsection \<open>A sequence against itself\<close>

lemma run_self_le_row: "run P a a 0 0 i j \<le> run P a a 0 0 i i"
proof (induction i arbitrary: j)
  case 0
  then show ?case by simp
next
  case (Suc i)
  from Suc [of "j - 1"] show ?case by simp
qed

lemma run_self_le_col: "run P a a 0 0 i j \<le> run P a a 0 0 j j"
proof (induction i arbitrary: j)
  case 0
  show ?case by (subst (2) run_unfold) simp
next
  case (Suc i)
  show ?case
  proof (cases j)
    case 0
    then show ?thesis by simp
  next
    case (Suc j')
    with Suc.IH [of j'] show ?thesis by simp
  qed
qed

lemma foldl_upd_small:
  "\<forall>j \<in> set xs. r i j \<le> snd (snd best) \<Longrightarrow> foldl (upd r i) best xs = best"
proof (induction xs)
  case Nil
  then show ?case by simp
next
  case (Cons j xs)
  then have "upd r i best j = best" by (cases best) (simp add: upd_def)
  with Cons show ?case by simp
qed

definition on_diagonal :: "match \<Rightarrow> bool" where
  "on_diagonal m \<longleftrightarrow> fst m = fst (snd m)"

lemma self_row:
  assumes "i < n" "on_diagonal best" "\<forall>t<i. run P a a 0 0 t t \<le> snd (snd best)"
  shows "on_diagonal (foldl (upd (run P a a 0 0) i) best [0..<n]) \<and>
         (\<forall>t<Suc i. run P a a 0 0 t t \<le> snd (snd (foldl (upd (run P a a 0 0) i) best [0..<n])))"
proof -
  let ?r = "run P a a 0 0"
  let ?b = "upd ?r i best i"
  from assms(1) have split: "[0..<n] = [0..<i] @ i # [Suc i..<n]"
    by (metis le_add1 less_imp_le_nat upt_add_eq_append upt_conv_Cons plus_nat.add_0 zero_le le_add_diff_inverse)
  have 1: "foldl (upd ?r i) best [0..<i] = best"
  proof (rule foldl_upd_small, rule ballI)
    fix j assume "j \<in> set [0..<i]"
    then have "j < i" by simp
    with assms(3) have "?r j j \<le> snd (snd best)" by simp
    with run_self_le_col [of P a i j] show "?r i j \<le> snd (snd best)" by simp
  qed
  have sz: "snd (snd best) \<le> snd (snd ?b)" "?r i i \<le> snd (snd ?b)"
    by (cases best; simp add: upd_def)+
  have 2: "foldl (upd ?r i) ?b [Suc i..<n] = ?b"
  proof (rule foldl_upd_small, rule ballI)
    fix j
    from run_self_le_row [of P a i j] sz(2) show "?r i j \<le> snd (snd ?b)" by simp
  qed
  have r: "foldl (upd ?r i) best [0..<n] = ?b"
    by (simp add: split 1 2)
  have d: "on_diagonal ?b"
    using assms(2) by (cases best) (simp add: upd_def on_diagonal_def)
  have "?r t t \<le> snd (snd ?b)" if "t < Suc i" for t
  proof (cases "t = i")
    case True
    with sz(2) show ?thesis by simp
  next
    case False
    with that assms(3) have "?r t t \<le> snd (snd best)" by simp
    with sz(1) show ?thesis by simp
  qed
  with d show ?thesis unfolding r by simp
qed

lemma self_rows:
  "m \<le> n \<Longrightarrow>
   on_diagonal (scan_cells (run P a a 0 0) 0 n (0, 0, 0) [0..<m]) \<and>
   (\<forall>t<m. run P a a 0 0 t t \<le> snd (snd (scan_cells (run P a a 0 0) 0 n (0, 0, 0) [0..<m])))"
proof (induction m)
  case 0
  then show ?case by (simp add: scan_cells_def on_diagonal_def)
next
  case (Suc m)
  then have ih: "on_diagonal (scan_cells (run P a a 0 0) 0 n (0, 0, 0) [0..<m])"
    "\<forall>t<m. run P a a 0 0 t t \<le> snd (snd (scan_cells (run P a a 0 0) 0 n (0, 0, 0) [0..<m]))"
    by simp_all
  from Suc.prems have "m < n" by simp
  from self_row [OF this ih] show ?case by (simp add: scan_cells_def)
qed

lemma extend_left_self: "extend_left a a 0 0 (d, d, k) = (0, 0, k + d)"
proof (induction d arbitrary: k)
  case 0
  then show ?case by (simp add: extend_left_stop)
next
  case (Suc d)
  have "extend_left a a 0 0 (Suc d, Suc d, k) = extend_left a a 0 0 (Suc d - 1, Suc d - 1, k + 1)"
    by (rule extend_left_step) simp
  with Suc [of "k + 1"] show ?case by simp
qed

lemma extend_right_self: "k \<le> n \<Longrightarrow> extend_right a a n n (0, 0, k) = (0, 0, n)"
proof (induction "n - k" arbitrary: k)
  case 0
  then show ?case by (simp add: extend_right_stop)
next
  case (Suc d)
  then have "k < n" by simp
  then have "extend_right a a n n (0, 0, k) = extend_right a a n n (0, 0, k + 1)"
    by (intro extend_right_step) simp
  moreover from Suc have "d = n - (k + 1)" "k + 1 \<le> n" by simp_all
  ultimately show ?case using Suc(1) by simp
qed

lemma find_longest_match_self:
  "find_longest_match a a (chain_b a) 0 (length a) 0 (length a) = (0, 0, length a)"
proof -
  let ?n = "length a"
  let ?m = "longest_junk_free a (chain_b a) 0 ?n 0 ?n"
  obtain d e k where m: "?m = (d, e, k)" by (cases ?m)
  have "?m = scan_cells (run (popular a) a a 0 0) 0 ?n (0, 0, 0) [0..<?n]"
    by (rule longest_junk_free_eq) simp
  with self_rows [of ?n ?n "popular a" a] have "on_diagonal ?m" by simp
  with m have e: "e = d" by (simp add: on_diagonal_def)
  from longest_junk_free_ok [of 0 ?n 0 ?n a "chain_b a"] have "d + k \<le> ?n"
    by (auto simp: m best_ok_def)
  then have "k + d \<le> ?n" by simp
  then show ?thesis
    by (simp add: find_longest_match_def m e extend_left_self extend_right_self)
qed

lemma get_opcodes_self:
  "get_opcodes a a = (if a = [] then [] else [(Equal, 0, length a, 0, length a)])"
proof (cases "a = []")
  case True
  then show ?thesis by (simp add: get_opcodes_both_empty)
next
  case False
  have "rec_blocks a a (chain_b a) (0, length a, 0, length a) = [(0, 0, length a)]"
    using False by (subst rec_blocks.simps) (simp add: find_longest_match_self)
  then have "get_matching_blocks a a = [(0, 0, length a), (length a, length a, 0)]"
    using False
    by (simp add: get_matching_blocks_def Let_def sort_match_loop collapse_def collapse_step_def)
  with False show ?thesis
    by (simp add: get_opcodes_def opcode_step_def)
qed

lemma page_changes_self: "page_changes texts texts p = []"
  by (simp add: page_changes_def get_opcodes_self opcode_changes_def)

lemma line_diff_self: "line_diff texts texts = []"
  by (simp add: line_diff_as_map line_diff_pages_def page_changes_self)

lemma page_red_self: "page_red ws ws = []"
  by (simp add: page_red_def get_opcodes_self left_boxes_def)

lemma page_green_self: "page_green ws ws = []"
  by (simp add: page_green_def get_opcodes_self right_boxes_def)

lemma word_diff_self:
  "word_diff pdf pdf =
     (replicate (length pdf) \<lparr>red = [], green = []\<rparr>,
      replicate (length pdf) \<lparr>red = [], green = []\<rparr>)"
  by (simp add: word_diff_as_map word_diff_pages_def page_red_self page_green_self
      map_replicate_const)

text \<open>
  C5. A document compared with an identical copy of itself (the same page texts, the
  same words on every page) has no change, and on both sides every page has an empty red
  and an empty green list.
\<close>

theorem identity_no_changes:
  "compare_changes texts texts = [] \<and>
   changes (compare_report texts texts) = [] \<and>
   total (compare_report texts texts) = 0 \<and>
   word_diff pdf pdf =
     (replicate (length pdf) \<lparr>red = [], green = []\<rparr>,
      replicate (length pdf) \<lparr>red = [], green = []\<rparr>)"
  by (simp add: compare_changes_def compare_report_def build_report_def line_diff_self
      word_diff_self)

theorem identity_no_changes_witness:
  "compare_changes [Some (py ''hello world''), None] [Some (py ''hello world''), None] = [] \<and>
   word_diff
     [[\<lparr>wtext = Some (py ''hello''), x0 = 0, top = 0, x1 = 5, bottom = 1\<rparr>,
       \<lparr>wtext = Some (py ''world''), x0 = 6, top = 0, x1 = 11, bottom = 1\<rparr>]]
     [[\<lparr>wtext = Some (py ''hello''), x0 = 0, top = 0, x1 = 5, bottom = 1\<rparr>,
       \<lparr>wtext = Some (py ''world''), x0 = 6, top = 0, x1 = 11, bottom = 1 :: nat\<rparr>]] =
   ([\<lparr>red = [], green = []\<rparr>], [\<lparr>red = [], green = []\<rparr>])"
  using identity_no_changes
    [of "[Some (py ''hello world''), None]"
      "[[\<lparr>wtext = Some (py ''hello''), x0 = 0, top = 0, x1 = 5, bottom = 1\<rparr>,
         \<lparr>wtext = Some (py ''world''), x0 = 6, top = 0, x1 = 11, bottom = 1 :: nat\<rparr>]]"]
  by simp

section \<open>The aligner of the specification\<close>

text \<open>
  The algorithm in the words of the specification. In the window \<open>a[alo:ahi]\<close>,
  \<open>b[blo:bhi]\<close> the longest matching block is looked for among all starting points
  \<open>(i, j)\<close>, in the order of \<open>i\<close> and then of \<open>j\<close>; a later block replaces the best one only
  when it is strictly longer, so ties go to the earliest start in \<open>a\<close> and then to the
  earliest start in \<open>b\<close>. A block found becomes an Equal opcode between the opcodes of the
  window before it and of the window after it; a window without a block gives one
  Replace, Delete or Insert, or nothing when it is empty on both sides.
\<close>

fun common_prefix :: "'a list \<Rightarrow> 'a list \<Rightarrow> nat" where
  "common_prefix (x # xs) (y # ys) = (if x = y then Suc (common_prefix xs ys) else 0)"
| "common_prefix xs ys = 0"

definition block_len :: "'a list \<Rightarrow> 'a list \<Rightarrow> nat \<Rightarrow> nat \<Rightarrow> nat \<times> nat \<Rightarrow> nat" where
  \<comment> \<open>the length of the longest matching block that starts at \<open>(i, j)\<close> and stays in the
      window\<close>
  "block_len a b ahi bhi c = (case c of (i, j) \<Rightarrow> common_prefix (slice a i ahi) (slice b j bhi))"

definition spec_better :: "'a list \<Rightarrow> 'a list \<Rightarrow> nat \<Rightarrow> nat \<Rightarrow> match \<Rightarrow> nat \<times> nat \<Rightarrow> match" where
  "spec_better a b ahi bhi best c =
     (if block_len a b ahi bhi c > snd (snd best)
      then (fst c, snd c, block_len a b ahi bhi c) else best)"

definition spec_longest_block :: "'a list \<Rightarrow> 'a list \<Rightarrow> nat \<Rightarrow> nat \<Rightarrow> nat \<Rightarrow> nat \<Rightarrow> match" where
  "spec_longest_block a b alo ahi blo bhi =
     foldl (spec_better a b ahi bhi) (alo, blo, 0) (List.product [alo..<ahi] [blo..<bhi])"

lemma common_prefix_le: "common_prefix xs ys \<le> length xs \<and> common_prefix xs ys \<le> length ys"
  by (induction xs ys rule: common_prefix.induct) auto

lemma block_len_le: "i + block_len a b ahi bhi (i, j) \<le> max i ahi \<and> j + block_len a b ahi bhi (i, j) \<le> max j bhi"
proof -
  from common_prefix_le [of "slice a i ahi" "slice b j bhi"]
  have "block_len a b ahi bhi (i, j) \<le> ahi - i" "block_len a b ahi bhi (i, j) \<le> bhi - j"
    by (simp_all add: block_len_def slice_def)
  then show ?thesis by auto
qed

lemma spec_fold_ok:
  "best_ok alo ahi blo bhi best \<Longrightarrow> \<forall>c \<in> set cs. alo \<le> fst c \<and> blo \<le> snd c \<Longrightarrow>
   best_ok alo ahi blo bhi (foldl (spec_better a b ahi bhi) best cs)"
proof (induction cs arbitrary: best)
  case Nil
  then show ?case by simp
next
  case (Cons c cs)
  obtain i j where c: "c = (i, j)" by (cases c)
  have "best_ok alo ahi blo bhi (spec_better a b ahi bhi best c)"
  proof (cases "block_len a b ahi bhi c > snd (snd best)")
    case True
    then have "0 < block_len a b ahi bhi (i, j)" by (simp add: c)
    with block_len_le [of i a b ahi bhi j] Cons.prems(2) True show ?thesis
      by (auto simp: spec_better_def c best_ok_def max_def split: if_splits)
  next
    case False
    with Cons.prems(1) show ?thesis by (simp add: spec_better_def)
  qed
  with Cons show ?case by simp
qed

lemma spec_longest_block_ok:
  "best_ok alo ahi blo bhi (spec_longest_block a b alo ahi blo bhi)"
  unfolding spec_longest_block_def
  by (rule spec_fold_ok) (auto simp: best_ok_def)

function spec_align :: "'a list \<Rightarrow> 'a list \<Rightarrow> window \<Rightarrow> opcode list" where
  "spec_align a b (alo, ahi, blo, bhi) =
     (case spec_longest_block a b alo ahi blo bhi of (i, j, k) \<Rightarrow>
        if k \<ge> 1 then
          spec_align a b (alo, i, blo, j) @ [(Equal, i, i + k, j, j + k)] @
          spec_align a b (i + k, ahi, j + k, bhi)
        else if alo < ahi \<and> blo < bhi then [(Replace, alo, ahi, blo, bhi)]
        else if alo < ahi then [(Delete, alo, ahi, blo, bhi)]
        else if blo < bhi then [(Insert, alo, ahi, blo, bhi)]
        else [])"
  by pat_completeness auto
termination
proof (relation "measure (\<lambda>(a, b, w). window_weight w)", goal_cases)
  case 1
  show ?case by simp
next
  case (2 a b alo ahi blo bhi i y j k)
  then have f: "spec_longest_block a b alo ahi blo bhi = (i, j, k)" by simp
  have "best_ok alo ahi blo bhi (i, j, k)"
    using spec_longest_block_ok [of alo ahi blo bhi a b] by (simp add: f)
  with 2 show ?case by (auto simp: best_ok_def window_weight_def)
next
  case (3 a b alo ahi blo bhi i y j k)
  then have f: "spec_longest_block a b alo ahi blo bhi = (i, j, k)" by simp
  have "best_ok alo ahi blo bhi (i, j, k)"
    using spec_longest_block_ok [of alo ahi blo bhi a b] by (simp add: f)
  with 3 show ?case by (auto simp: best_ok_def window_weight_def)
qed

declare spec_align.simps [simp del]

definition spec_opcodes :: "'a list \<Rightarrow> 'a list \<Rightarrow> opcode list" where
  "spec_opcodes a b = spec_align a b (0, length a, 0, length b)"

section \<open>The aligner and the specification's algorithm\<close>

subsection \<open>Keeping the first longest candidate\<close>

definition keep_longer :: "('c \<Rightarrow> nat) \<Rightarrow> ('c \<Rightarrow> match) \<Rightarrow> match \<Rightarrow> 'c \<Rightarrow> match" where
  "keep_longer val mk best c = (if val c > snd (snd best) then mk c else best)"

lemma spec_better_keep:
  "spec_better a b ahi bhi =
   keep_longer (block_len a b ahi bhi) (\<lambda>c. (fst c, snd c, block_len a b ahi bhi c))"
  by (simp add: fun_eq_iff spec_better_def keep_longer_def)

lemma upd_keep:
  "upd r i best j =
   keep_longer (\<lambda>(i, j). r i j) (\<lambda>(i, j). (i + 1 - r i j, j + 1 - r i j, r i j)) best (i, j)"
  by (cases best) (simp add: upd_def keep_longer_def)

lemma scan_cells_product:
  "scan_cells r blo bhi best rows =
   foldl (keep_longer (\<lambda>(i, j). r i j) (\<lambda>(i, j). (i + 1 - r i j, j + 1 - r i j, r i j))) best
     (List.product rows [blo..<bhi])"
proof (induction rows arbitrary: best)
  case Nil
  then show ?case by (simp add: scan_cells_def)
next
  case (Cons i rows)
  have "foldl (upd r i) best cols =
        foldl (keep_longer (\<lambda>(i, j). r i j) (\<lambda>(i, j). (i + 1 - r i j, j + 1 - r i j, r i j))) best
          (map (Pair i) cols)" for cols
    by (induction cols arbitrary: best) (simp_all add: upd_keep)
  with Cons show ?case by (simp add: scan_cells_def)
qed

lemma sorted_product:
  fixes xs :: "nat list" and ys :: "nat list"
  shows "sorted_wrt (<) xs \<Longrightarrow> sorted_wrt (<) ys \<Longrightarrow> sorted_wrt (<) (List.product xs ys)"
proof (induction xs)
  case Nil
  then show ?case by simp
next
  case (Cons x xs)
  have "sorted_wrt (<) (map (Pair x) ys)"
    using Cons.prems(2) by (simp add: sorted_wrt_map less_prod_def)
  moreover have "\<forall>p \<in> set (map (Pair x) ys). \<forall>q \<in> set (List.product xs ys). p < q"
    using Cons.prems(1) by (auto simp: less_prod_def)
  moreover have "sorted_wrt (<) (List.product xs ys)"
    using Cons by simp
  ultimately show ?case
    by (simp add: sorted_wrt_append)
qed

lemma first_longest:
  fixes val :: "'c::linorder \<Rightarrow> nat"
  assumes "\<And>c. snd (snd (mk c)) = val c"
  shows "sorted_wrt (<) cs \<Longrightarrow>
    (foldl (keep_longer val mk) best cs = best \<and> (\<forall>c \<in> set cs. val c \<le> snd (snd best))) \<or>
    (\<exists>c \<in> set cs. foldl (keep_longer val mk) best cs = mk c \<and> val c > snd (snd best) \<and>
        (\<forall>c' \<in> set cs. val c' \<le> val c \<and> (val c' = val c \<longrightarrow> c \<le> c')))"
proof (induction cs arbitrary: best)
  case Nil
  then show ?case by simp
next
  case (Cons c cs)
  from Cons.prems have s: "sorted_wrt (<) cs" and lt: "\<forall>c' \<in> set cs. c < c'" by simp_all
  show ?case
  proof (cases "val c > snd (snd best)")
    case True
    then have k: "keep_longer val mk best c = mk c" by (simp add: keep_longer_def)
    from Cons.IH [OF s, of "mk c"] show ?thesis
    proof
      assume "foldl (keep_longer val mk) (mk c) cs = mk c \<and>
              (\<forall>c' \<in> set cs. val c' \<le> snd (snd (mk c)))"
      with True lt have "foldl (keep_longer val mk) best (c # cs) = mk c \<and> val c > snd (snd best) \<and>
        (\<forall>c' \<in> set (c # cs). val c' \<le> val c \<and> (val c' = val c \<longrightarrow> c \<le> c'))"
        by (auto simp: k assms)
      then show ?thesis by (intro disjI2 bexI [of _ c]) simp_all
    next
      assume "\<exists>d \<in> set cs. foldl (keep_longer val mk) (mk c) cs = mk d \<and>
                val d > snd (snd (mk c)) \<and>
                (\<forall>c' \<in> set cs. val c' \<le> val d \<and> (val c' = val d \<longrightarrow> d \<le> c'))"
      then obtain d where d: "d \<in> set cs" "foldl (keep_longer val mk) (mk c) cs = mk d"
        "val d > val c" "\<forall>c' \<in> set cs. val c' \<le> val d \<and> (val c' = val d \<longrightarrow> d \<le> c')"
        by (auto simp: assms)
      with True have "foldl (keep_longer val mk) best (c # cs) = mk d \<and> val d > snd (snd best) \<and>
        (\<forall>c' \<in> set (c # cs). val c' \<le> val d \<and> (val c' = val d \<longrightarrow> d \<le> c'))"
        by (auto simp: k)
      with d(1) show ?thesis by (intro disjI2 bexI [of _ d]) simp_all
    qed
  next
    case False
    then have k: "keep_longer val mk best c = best" by (simp add: keep_longer_def)
    from Cons.IH [OF s, of best] show ?thesis
    proof
      assume "foldl (keep_longer val mk) best cs = best \<and>
              (\<forall>c' \<in> set cs. val c' \<le> snd (snd best))"
      with False show ?thesis by (auto simp: k)
    next
      assume "\<exists>d \<in> set cs. foldl (keep_longer val mk) best cs = mk d \<and>
                val d > snd (snd best) \<and>
                (\<forall>c' \<in> set cs. val c' \<le> val d \<and> (val c' = val d \<longrightarrow> d \<le> c'))"
      then obtain d where d: "d \<in> set cs" "foldl (keep_longer val mk) best cs = mk d"
        "val d > snd (snd best)"
        "\<forall>c' \<in> set cs. val c' \<le> val d \<and> (val c' = val d \<longrightarrow> d \<le> c')"
        by auto
      with False have "foldl (keep_longer val mk) best (c # cs) = mk d \<and> val d > snd (snd best) \<and>
        (\<forall>c' \<in> set (c # cs). val c' \<le> val d \<and> (val c' = val d \<longrightarrow> d \<le> c'))"
        by (auto simp: k)
      with d(1) show ?thesis by (intro disjI2 bexI [of _ d]) simp_all
    qed
  qed
qed

subsection \<open>Blocks by their end and by their start\<close>

lemma run_block:
  "run P a b alo blo i j = k \<Longrightarrow> 0 < k \<Longrightarrow>
   alo + k \<le> i + 1 \<and> blo + k \<le> j + 1 \<and> (\<forall>t<k. a ! (i - t) = b ! (j - t))"
proof (induction i arbitrary: j k)
  case 0
  then show ?case by (auto split: if_splits)
next
  case (Suc i)
  show ?case
  proof (cases "alo \<le> Suc i \<and> blo \<le> j \<and> a ! Suc i = b ! j \<and> \<not> P (b ! j)")
    case False
    with Suc.prems show ?thesis by auto
  next
    case c: True
    show ?thesis
    proof (cases "alo = Suc i \<or> j = blo")
      case True
      with c Suc.prems have "k = 1" by auto
      with c show ?thesis by auto
    next
      case False
      define k' where "k' = run P a b alo blo i (j - 1)"
      from c False Suc.prems have k: "k = Suc k'" by (simp add: k'_def)
      from c False have j: "j - 1 + 1 = j" "alo \<le> i" "blo < j" by auto
      have ih: "alo + k' \<le> i + 1 \<and> blo + k' \<le> j \<and> (\<forall>t<k'. a ! (i - t) = b ! (j - 1 - t))"
      proof (cases "k' = 0")
        case True
        with j show ?thesis by simp
      next
        case False
        with Suc.IH [OF k'_def [symmetric]] j(1) show ?thesis by simp
      qed
      have "a ! (Suc i - t) = b ! (j - t)" if "t < k" for t
      proof (cases t)
        case 0
        with c show ?thesis by simp
      next
        case (Suc t')
        with that k ih have "a ! (i - t') = b ! (j - 1 - t')" by simp
        with Suc show ?thesis by simp
      qed
      with ih k show ?thesis by simp
    qed
  qed
qed

lemma run_ge:
  "alo + k \<le> i + 1 \<Longrightarrow> blo + k \<le> j + 1 \<Longrightarrow> \<forall>t<k. a ! (i - t) = b ! (j - t) \<Longrightarrow>
   k \<le> run (\<lambda>x. False) a b alo blo i j"
proof (induction k arbitrary: i j)
  case 0
  then show ?case by simp
next
  case (Suc k)
  from Suc.prems have c: "alo \<le> i" "blo \<le> j" "a ! i = b ! j" by auto
  show ?case
  proof (cases "i = alo \<or> j = blo")
    case True
    with Suc.prems have "k = 0" by auto
    with c True show ?thesis by (subst run_unfold) simp
  next
    case False
    have "a ! (i - 1 - t) = b ! (j - 1 - t)" if "t < k" for t
      using Suc.prems(3) that by (auto dest: spec [of _ "Suc t"])
    with Suc.IH [of "i - 1" "j - 1"] Suc.prems(1,2) c False
    have "k \<le> run (\<lambda>x. False) a b alo blo (i - 1) (j - 1)" by simp
    with c False show ?thesis by (subst run_unfold) simp
  qed
qed

lemma common_prefix_block:
  "common_prefix xs ys = k \<Longrightarrow>
   k \<le> length xs \<and> k \<le> length ys \<and> (\<forall>t<k. xs ! t = ys ! t) \<and>
   \<not> (k < length xs \<and> k < length ys \<and> xs ! k = ys ! k)"
proof (induction xs ys arbitrary: k rule: common_prefix.induct)
  case (1 x xs y ys)
  show ?case
  proof (cases "x = y")
    case True
    with 1 show ?thesis by (auto simp: nth_Cons split: nat.splits)
  next
    case False
    with 1 show ?thesis by auto
  qed
qed simp_all

lemma common_prefix_ge:
  "k \<le> length xs \<Longrightarrow> k \<le> length ys \<Longrightarrow> \<forall>t<k. xs ! t = ys ! t \<Longrightarrow> k \<le> common_prefix xs ys"
proof (induction xs ys arbitrary: k rule: common_prefix.induct)
  case (1 x xs y ys)
  show ?case
  proof (cases k)
    case 0
    then show ?thesis by simp
  next
    case (Suc k')
    with 1(2-) have "x = y" "k' \<le> length xs" "k' \<le> length ys" "\<forall>t<k'. xs ! t = ys ! t"
      by auto
    with 1(1) [of k'] Suc show ?thesis by simp
  qed
qed simp_all

lemma slice_nth: "hi \<le> length xs \<Longrightarrow> i + t < hi \<Longrightarrow> slice xs i hi ! t = xs ! (i + t)"
  by (simp add: slice_def)

lemma length_slice: "hi \<le> length xs \<Longrightarrow> length (slice xs i hi) = hi - i"
  by (simp add: slice_def)

lemma block_len_block:
  assumes "ahi \<le> length a" "bhi \<le> length b" "i < ahi" "j < bhi"
    and "block_len a b ahi bhi (i, j) = k"
  shows "i + k \<le> ahi \<and> j + k \<le> bhi \<and> (\<forall>t<k. a ! (i + t) = b ! (j + t)) \<and>
         \<not> (i + k < ahi \<and> j + k < bhi \<and> a ! (i + k) = b ! (j + k))"
proof -
  from assms(5) have "common_prefix (slice a i ahi) (slice b j bhi) = k"
    by (simp add: block_len_def)
  from common_prefix_block [OF this] assms(1-4)
  have k: "k \<le> ahi - i" "k \<le> bhi - j"
    and eq: "\<forall>t<k. slice a i ahi ! t = slice b j bhi ! t"
    and mx: "\<not> (k < ahi - i \<and> k < bhi - j \<and> slice a i ahi ! k = slice b j bhi ! k)"
    by (simp_all add: length_slice)
  have "a ! (i + t) = b ! (j + t)" if "t < k" for t
    using eq that k assms(1,2) by (simp add: slice_nth)
  moreover have "\<not> (i + k < ahi \<and> j + k < bhi \<and> a ! (i + k) = b ! (j + k))"
    using mx assms(1,2) by (auto simp: slice_nth)
  ultimately show ?thesis using k assms(3,4) by auto
qed

lemma block_len_ge:
  assumes "ahi \<le> length a" "bhi \<le> length b" "i + k \<le> ahi" "j + k \<le> bhi"
    and "\<forall>t<k. a ! (i + t) = b ! (j + t)"
  shows "k \<le> block_len a b ahi bhi (i, j)"
  unfolding block_len_def prod.case
  using assms by (intro common_prefix_ge) (auto simp: length_slice slice_nth)

lemma end_to_start:
  assumes "ahi \<le> length a" "bhi \<le> length b" "alo \<le> i" "i < ahi" "blo \<le> j" "j < bhi"
    and "run P a b alo blo i j = k" "0 < k"
  shows "alo \<le> i + 1 - k \<and> i + 1 - k < ahi \<and> blo \<le> j + 1 - k \<and> j + 1 - k < bhi \<and>
         k \<le> block_len a b ahi bhi (i + 1 - k, j + 1 - k)"
proof -
  from run_block [OF assms(7,8)]
  have b: "alo + k \<le> i + 1" "blo + k \<le> j + 1" "\<forall>t<k. a ! (i - t) = b ! (j - t)" by simp_all
  have "a ! (i + 1 - k + t) = b ! (j + 1 - k + t)" if "t < k" for t
  proof -
    define u where "u = k - 1 - t"
    from that b have "i + 1 - k + t = i - u" "j + 1 - k + t = j - u" "u < k"
      unfolding u_def by arith+
    with b(3) show ?thesis by (simp only:)
  qed
  then have "k \<le> block_len a b ahi bhi (i + 1 - k, j + 1 - k)"
    using assms b by (intro block_len_ge) simp_all
  with assms b show ?thesis by auto
qed

lemma start_to_end:
  assumes "ahi \<le> length a" "bhi \<le> length b" "alo \<le> i" "i < ahi" "blo \<le> j" "j < bhi"
    and "block_len a b ahi bhi (i, j) = k" "0 < k"
  shows "alo \<le> i + k - 1 \<and> i + k - 1 < ahi \<and> blo \<le> j + k - 1 \<and> j + k - 1 < bhi \<and>
         k \<le> run (\<lambda>x. False) a b alo blo (i + k - 1) (j + k - 1)"
proof -
  from block_len_block [OF assms(1,2,4,6,7)]
  have b: "i + k \<le> ahi" "j + k \<le> bhi" "\<forall>t<k. a ! (i + t) = b ! (j + t)" by simp_all
  have "a ! (i + k - 1 - t) = b ! (j + k - 1 - t)" if "t < k" for t
  proof -
    define u where "u = k - 1 - t"
    from that have "i + k - 1 - t = i + u" "j + k - 1 - t = j + u" "u < k"
      unfolding u_def by arith+
    with b(3) show ?thesis by (simp only:)
  qed
  then have "k \<le> run (\<lambda>x. False) a b alo blo (i + k - 1) (j + k - 1)"
    using assms b by (intro run_ge) simp_all
  with assms b show ?thesis by auto
qed

definition maximal_block :: "'a list \<Rightarrow> 'a list \<Rightarrow> window \<Rightarrow> match \<Rightarrow> bool" where
  \<comment> \<open>a block of equal elements that cannot be extended inside the window\<close>
  "maximal_block a b w m =
     (case w of (alo, ahi, blo, bhi) \<Rightarrow>
        (case m of (i, j, k) \<Rightarrow>
           (\<forall>t<k. a ! (i + t) = b ! (j + t)) \<and>
           \<not> (i > alo \<and> j > blo \<and> a ! (i - 1) = b ! (j - 1)) \<and>
           \<not> (i + k < ahi \<and> j + k < bhi \<and> a ! (i + k) = b ! (j + k))))"

lemma find_longest_match_spec:
  assumes np: "\<And>x. \<not> popular b x" and la: "ahi \<le> length a" and lb: "bhi \<le> length b"
  shows "find_longest_match a b (chain_b b) alo ahi blo bhi =
         spec_longest_block a b alo ahi blo bhi \<and>
         maximal_block a b (alo, ahi, blo, bhi) (spec_longest_block a b alo ahi blo bhi)"
proof -
  define r where "r = run (\<lambda>x. False) a b alo blo"
  define cs where "cs = List.product [alo..<ahi] [blo..<bhi]"
  define vD where "vD = (\<lambda>(i, j). r i j)"
  define mD where "mD = (\<lambda>(i, j). (i + 1 - r i j, j + 1 - r i j, r i j))"
  define vS where "vS = block_len a b ahi bhi"
  define mS where "mS = (\<lambda>c. (fst c, snd c, block_len a b ahi bhi c))"
  define D where "D = longest_junk_free a (chain_b b) alo ahi blo bhi"
  define S where "S = spec_longest_block a b alo ahi blo bhi"
  have pop: "popular b = (\<lambda>x. False)" using np by (simp add: fun_eq_iff)
  have D: "D = foldl (keep_longer vD mD) (alo, blo, 0) cs"
    unfolding D_def vD_def mD_def cs_def r_def
    by (simp add: longest_junk_free_eq [OF lb] pop scan_cells_product)
  have S: "S = foldl (keep_longer vS mS) (alo, blo, 0) cs"
    unfolding S_def vS_def mS_def cs_def
    by (simp add: spec_longest_block_def spec_better_keep)
  have srt: "sorted_wrt (<) cs"
    unfolding cs_def by (intro sorted_product) simp_all
  have cells: "(i, j) \<in> set cs \<longleftrightarrow> alo \<le> i \<and> i < ahi \<and> blo \<le> j \<and> j < bhi" for i j
    by (auto simp: cs_def)
  have szD: "snd (snd (mD c)) = vD c" for c by (cases c) (simp add: mD_def vD_def)
  have szS: "snd (snd (mS c)) = vS c" for c by (simp add: mS_def vS_def)
  have RM1: "(i + 1 - r i j, j + 1 - r i j) \<in> set cs \<and> r i j \<le> vS (i + 1 - r i j, j + 1 - r i j)"
    if "(i, j) \<in> set cs" "0 < r i j" for i j
    using end_to_start [OF la lb, of alo i blo j "\<lambda>x. False" "r i j"] that
    by (simp add: cells r_def vS_def)
  have RM2: "(i + vS (i, j) - 1, j + vS (i, j) - 1) \<in> set cs \<and>
             vS (i, j) \<le> r (i + vS (i, j) - 1) (j + vS (i, j) - 1)"
    if "(i, j) \<in> set cs" "0 < vS (i, j)" for i j
    using start_to_end [OF la lb, of alo i blo j "vS (i, j)"] that
    by (simp add: cells r_def vS_def)
  have stop: "S = D \<and> (\<forall>t<snd (snd S). a ! (fst S + t) = b ! (fst (snd S) + t)) \<and>
      \<not> (fst S > alo \<and> fst (snd S) > blo \<and> a ! (fst S - 1) = b ! (fst (snd S) - 1)) \<and>
      \<not> (fst S + snd (snd S) < ahi \<and> fst (snd S) + snd (snd S) < bhi \<and>
         a ! (fst S + snd (snd S)) = b ! (fst (snd S) + snd (snd S)))"
    using first_longest [of mS vS cs "(alo, blo, 0)", OF szS srt]
  proof
    assume A: "foldl (keep_longer vS mS) (alo, blo, 0) cs = (alo, blo, 0) \<and>
               (\<forall>c \<in> set cs. vS c \<le> snd (snd (alo, blo, 0::nat)))"
    then have S0: "S = (alo, blo, 0)" and z: "\<And>c. c \<in> set cs \<Longrightarrow> vS c = 0"
      by (auto simp: S)
    have zr: "vD c = 0" if "c \<in> set cs" for c
    proof (rule ccontr)
      obtain i j where c: "c = (i, j)" by (cases c)
      assume "vD c \<noteq> 0"
      then have "0 < r i j" by (simp add: c vD_def)
      from RM1 [OF that [unfolded c] this] z show False 
        using \<open>0 < r i j\<close> by fastforce
    qed
    have D0: "D = (alo, blo, 0)"
      using first_longest [of mD vD cs "(alo, blo, 0)", OF szD srt] zr
      by (auto simp: D)
    have "\<not> (alo < ahi \<and> blo < bhi \<and> a ! alo = b ! blo)"
    proof
      assume c: "alo < ahi \<and> blo < bhi \<and> a ! alo = b ! blo"
      then have "1 \<le> block_len a b ahi bhi (alo, blo)"
        using la lb by (intro block_len_ge) simp_all
      moreover from c have "(alo, blo) \<in> set cs" by (simp add: cells)
      ultimately show False using z [of "(alo, blo)"] by (simp add: vS_def)
    qed
    with S0 D0 show ?thesis by simp
  next
    assume "\<exists>c \<in> set cs. foldl (keep_longer vS mS) (alo, blo, 0) cs = mS c \<and>
              snd (snd (alo, blo, 0::nat)) < vS c \<and>
              (\<forall>c' \<in> set cs. vS c' \<le> vS c \<and> (vS c' = vS c \<longrightarrow> c \<le> c'))"
    then obtain si sj where s: "(si, sj) \<in> set cs" "S = mS (si, sj)" "0 < vS (si, sj)"
      and smax: "\<And>c'. c' \<in> set cs \<Longrightarrow> vS c' \<le> vS (si, sj)"
      and smin: "\<And>c'. c' \<in> set cs \<Longrightarrow> vS c' = vS (si, sj) \<Longrightarrow> (si, sj) \<le> c'"
      by (auto simp: S)
    define K where "K = vS (si, sj)"
    from RM2 [OF s(1,3)] have e': "(si + K - 1, sj + K - 1) \<in> set cs"
      "K \<le> r (si + K - 1) (sj + K - 1)"
      by (simp_all add: K_def)
    from e'(2) s(3) have "0 < vD (si + K - 1, sj + K - 1)"
      by (simp add: vD_def K_def)
    with e'(1) have "\<not> (\<forall>c \<in> set cs. vD c \<le> 0)"
      by force
    with first_longest [of mD vD cs "(alo, blo, 0)", OF szD srt]
    obtain ei ej where e: "(ei, ej) \<in> set cs" "D = mD (ei, ej)" "0 < vD (ei, ej)"
      and emax: "\<And>c'. c' \<in> set cs \<Longrightarrow> vD c' \<le> vD (ei, ej)"
      and emin: "\<And>c'. c' \<in> set cs \<Longrightarrow> vD c' = vD (ei, ej) \<Longrightarrow> (ei, ej) \<le> c'"
      by (auto simp: D)
    from e(3) have rpos: "0 < r ei ej" by (simp add: vD_def)
    from RM1 [OF e(1) rpos] have s': "(ei + 1 - r ei ej, ej + 1 - r ei ej) \<in> set cs"
      "r ei ej \<le> vS (ei + 1 - r ei ej, ej + 1 - r ei ej)"
      by simp_all
    from s'(2) smax [OF s'(1)] have "r ei ej \<le> K" by (simp add: K_def)
    moreover from e'(2) emax [OF e'(1)] have "K \<le> r ei ej" by (simp add: vD_def)
    ultimately have rK: "r ei ej = K" by simp
    from s'(2) smax [OF s'(1)] have "vS (ei + 1 - K, ej + 1 - K) = vS (si, sj)"
      by (simp add: rK K_def)
    from smin [OF s'(1) [unfolded rK] this] have le1: "(si, sj) \<le> (ei + 1 - K, ej + 1 - K)" .
    from e'(2) emax [OF e'(1)] have "vD (si + K - 1, sj + K - 1) = vD (ei, ej)"
      by (simp add: vD_def rK)
    from emin [OF e'(1) this] have le2: "(ei, ej) \<le> (si + K - 1, sj + K - 1)" .
    from s(3) have Kpos: "0 < K" by (simp add: K_def)
    from run_block [of "\<lambda>x. False" a b alo blo ei ej K] rK Kpos
    have Kle: "K \<le> ei + 1" "K \<le> ej + 1" by (simp_all add: r_def)
    from le1 le2 Kpos Kle have eq: "si = ei + 1 - K" "sj = ej + 1 - K"
      by (auto simp: less_eq_prod_def)
    have "D = (si, sj, K)" by (simp add: e(2) mD_def rK eq)
    moreover have "S = (si, sj, K)" by (simp add: s(2) mS_def K_def vS_def)
    ultimately have SD: "S = D" by simp
    from s(1) have sc: "alo \<le> si" "si < ahi" "blo \<le> sj" "sj < bhi" by (simp_all add: cells)
    from block_len_block [OF la lb sc(2,4), of K]
    have blk: "si + K \<le> ahi" "sj + K \<le> bhi" "\<forall>t<K. a ! (si + t) = b ! (sj + t)"
      "\<not> (si + K < ahi \<and> sj + K < bhi \<and> a ! (si + K) = b ! (sj + K))"
      by (simp_all add: K_def vS_def)
    have left: "\<not> (si > alo \<and> sj > blo \<and> a ! (si - 1) = b ! (sj - 1))"
    proof
      assume c: "si > alo \<and> sj > blo \<and> a ! (si - 1) = b ! (sj - 1)"
      have "a ! (si - 1 + t) = b ! (sj - 1 + t)" if "t < K + 1" for t
      proof (cases t)
        case 0
        with c show ?thesis by simp
      next
        case (Suc t')
        with that blk(3) c show ?thesis by simp
      qed
      then have "K + 1 \<le> block_len a b ahi bhi (si - 1, sj - 1)"
        using la lb blk(1,2) c by (intro block_len_ge) simp_all
      moreover from c sc have "(si - 1, sj - 1) \<in> set cs" by (auto simp: cells)
      ultimately show False using smax [of "(si - 1, sj - 1)"] by (simp add: K_def vS_def)
    qed
    have Sv: "S = (si, sj, K)" by (simp add: s(2) mS_def K_def vS_def)
    from SD left blk(3,4) show ?thesis unfolding Sv by auto
  qed
  obtain si sj K where Sv: "S = (si, sj, K)" by (cases S)
  from stop have DS: "D = (si, sj, K)"
    and m: "\<forall>t<K. a ! (si + t) = b ! (sj + t)"
    and l: "\<not> (si > alo \<and> sj > blo \<and> a ! (si - 1) = b ! (sj - 1))"
    and r: "\<not> (si + K < ahi \<and> sj + K < bhi \<and> a ! (si + K) = b ! (sj + K))"
    unfolding Sv by auto
  have "extend_right a b ahi bhi (extend_left a b alo blo (si, sj, K)) = (si, sj, K)"
    by (simp only: extend_left_stop [OF l] extend_right_stop [OF r])
  then have "find_longest_match a b (chain_b b) alo ahi blo bhi = (si, sj, K)"
    unfolding find_longest_match_def D_def [symmetric] DS .
  moreover have "maximal_block a b (alo, ahi, blo, bhi) (si, sj, K)"
    using m l r by (simp add: maximal_block_def)
  ultimately show ?thesis
    unfolding S_def [symmetric] Sv by simp
qed

subsection \<open>No two blocks touch\<close>

definition adjacent :: "match \<Rightarrow> match \<Rightarrow> bool" where
  "adjacent m m' \<longleftrightarrow>
     (case m of (i1, j1, k1) \<Rightarrow> case m' of (i2, j2, k2) \<Rightarrow> i1 + k1 = i2 \<and> j1 + k1 = j2)"

lemma collapse_fold_apart:
  "successively (\<lambda>x y. \<not> adjacent x y) (m # rs) \<Longrightarrow> \<forall>x \<in> set (m # rs). 0 < snd (snd x) \<Longrightarrow>
   foldl collapse_step (m, na) rs = (last (m # rs), na @ butlast (m # rs))"
proof (induction rs arbitrary: m na)
  case Nil
  then show ?case by simp
next
  case (Cons m' rs)
  obtain i1 j1 k1 where m: "m = (i1, j1, k1)" by (cases m)
  obtain i2 j2 k2 where m': "m' = (i2, j2, k2)" by (cases m')
  from Cons.prems have na: "\<not> adjacent m m'" and s: "successively (\<lambda>x y. \<not> adjacent x y) (m' # rs)"
    and p: "\<forall>x \<in> set (m' # rs). 0 < snd (snd x)" and k1: "0 < k1"
    by (simp_all add: m)
  from na k1 have "collapse_step (m, na) m' = (m', na @ [m])"
    by (auto simp: collapse_step_def adjacent_def m m')
  with Cons.IH [OF s p, of "na @ [m]"] show ?case by simp
qed

lemma collapse_apart:
  assumes "successively (\<lambda>x y. \<not> adjacent x y) bs" "\<forall>x \<in> set bs. 0 < snd (snd x)"
  shows "collapse bs = bs"
proof (cases bs)
  case Nil
  then show ?thesis by (simp add: collapse_def)
next
  case (Cons m rs)
  obtain i j k where m: "m = (i, j, k)" by (cases m)
  from assms Cons m have k: "0 < k" by simp
  have "collapse_step ((0, 0, 0), []) m = (m, [])"
    by (auto simp: collapse_step_def m)
  with collapse_fold_apart [OF assms [unfolded Cons], of "[]"]
  have "foldl collapse_step ((0, 0, 0), []) bs = (last (m # rs), butlast (m # rs))"
    by (simp add: Cons)
  moreover obtain i' j' k' where l: "last (m # rs) = (i', j', k')" by (cases "last (m # rs)")
  moreover from assms(2) Cons have "0 < snd (snd (last (m # rs)))"
    by (metis last_in_set list.distinct(1))
  ultimately have "collapse bs = butlast (m # rs) @ [last (m # rs)]"
    by (simp add: collapse_def)
  then show ?thesis by (simp add: Cons del: butlast.simps last.simps)
qed

lemma successively_join:
  "successively P L \<Longrightarrow> successively P R \<Longrightarrow> (L \<noteq> [] \<Longrightarrow> P (last L) x) \<Longrightarrow>
   (R \<noteq> [] \<Longrightarrow> P x (hd R)) \<Longrightarrow> successively P (L @ x # R)"
  by (cases R) (auto simp: successively_append_iff successively_Cons)

definition matching :: "'a list \<Rightarrow> 'a list \<Rightarrow> match \<Rightarrow> bool" where
  "matching a b m \<longleftrightarrow> (case m of (i, j, k) \<Rightarrow> 0 < k \<and> (\<forall>t<k. a ! (i + t) = b ! (j + t)))"

lemma rec_blocks_apart:
  assumes np: "\<And>x. \<not> popular b x"
  shows "ahi \<le> length a \<Longrightarrow> bhi \<le> length b \<Longrightarrow>
    successively (\<lambda>x y. \<not> adjacent x y) (rec_blocks a b (chain_b b) (alo, ahi, blo, bhi)) \<and>
    (\<forall>m \<in> set (rec_blocks a b (chain_b b) (alo, ahi, blo, bhi)). matching a b m)"
proof (induction "window_weight (alo, ahi, blo, bhi)" arbitrary: alo ahi blo bhi
    rule: less_induct)
  case less
  let ?b2j = "chain_b b"
  obtain i j k where f: "find_longest_match a b ?b2j alo ahi blo bhi = (i, j, k)"
    by (cases "find_longest_match a b ?b2j alo ahi blo bhi")
  show ?case
  proof (cases "k = 0")
    case True
    with f have "rec_blocks a b ?b2j (alo, ahi, blo, bhi) = []"
      by (subst rec_blocks.simps) simp
    then show ?thesis by simp
  next
    case nz: False
    have "best_ok alo ahi blo bhi (i, j, k)"
      using find_longest_match_ok [of alo ahi blo bhi a b ?b2j] by (simp add: f)
    with nz have bnd: "alo \<le> i" "i + k \<le> ahi" "blo \<le> j" "j + k \<le> bhi"
      by (auto simp: best_ok_def)
    note fs = find_longest_match_spec [OF np less.prems, of alo blo]
    from fs f have sp: "spec_longest_block a b alo ahi blo bhi = (i, j, k)" by simp
    from fs [unfolded sp]
    have mx: "\<forall>t<k. a ! (i + t) = b ! (j + t)"
      "\<not> (i > alo \<and> j > blo \<and> a ! (i - 1) = b ! (j - 1))"
      "\<not> (i + k < ahi \<and> j + k < bhi \<and> a ! (i + k) = b ! (j + k))"
      by (simp_all add: maximal_block_def)
    let ?L = "if alo < i \<and> blo < j then rec_blocks a b ?b2j (alo, i, blo, j) else []"
    let ?R = "if i + k < ahi \<and> j + k < bhi then rec_blocks a b ?b2j (i + k, ahi, j + k, bhi)
              else []"
    have eq: "rec_blocks a b ?b2j (alo, ahi, blo, bhi) = ?L @ (i, j, k) # ?R"
      using f nz by (subst rec_blocks.simps) simp
    have L: "successively (\<lambda>x y. \<not> adjacent x y) ?L \<and> (\<forall>m \<in> set ?L. matching a b m)"
    proof (cases "alo < i \<and> blo < j")
      case True
      from bnd less.prems have "i \<le> length a" "j \<le> length b" by simp_all
      moreover from bnd nz have "window_weight (alo, i, blo, j) < window_weight (alo, ahi, blo, bhi)"
        by (simp add: window_weight_def)
      ultimately show ?thesis using less.hyps [of alo i blo j] True by simp
    next
      case False
      then have "?L = []" by auto
      then show ?thesis by simp
    qed
    have R: "successively (\<lambda>x y. \<not> adjacent x y) ?R \<and> (\<forall>m \<in> set ?R. matching a b m)"
    proof (cases "i + k < ahi \<and> j + k < bhi")
      case True
      from bnd nz have "window_weight (i + k, ahi, j + k, bhi) < window_weight (alo, ahi, blo, bhi)"
        by (simp add: window_weight_def)
      with less.hyps [of "i + k" ahi "j + k" bhi] less.prems True show ?thesis by simp
    next
      case False
      then have "?R = []" by auto
      then show ?thesis by simp
    qed
    have x: "matching a b (i, j, k)"
      using nz mx(1) by (simp add: matching_def)
    have Lx: "\<not> adjacent (last ?L) (i, j, k)" if "?L \<noteq> []"
    proof
      assume adj: "adjacent (last ?L) (i, j, k)"
      from that have c: "alo < i" "blo < j" by (auto split: if_splits)
      obtain i' j' k' where l: "last ?L = (i', j', k')" by (cases "last ?L")
      from that have "last ?L \<in> set ?L" by (rule last_in_set)
      with L have "matching a b (last ?L)" by blast
      with l have kp: "0 < k'" and al: "\<forall>t<k'. a ! (i' + t) = b ! (j' + t)"
        by (simp_all add: matching_def)
      from kp have "k' - 1 < k'" by simp
      with al have "a ! (i' + (k' - 1)) = b ! (j' + (k' - 1))" by blast
      moreover from adj l kp have "i - 1 = i' + (k' - 1)" "j - 1 = j' + (k' - 1)"
        by (auto simp: adjacent_def)
      ultimately have "a ! (i - 1) = b ! (j - 1)" by simp
      with c mx(2) show False by simp
    qed
    have xR: "\<not> adjacent (i, j, k) (hd ?R)" if "?R \<noteq> []"
    proof
      assume adj: "adjacent (i, j, k) (hd ?R)"
      from that have c: "i + k < ahi" "j + k < bhi" by (auto split: if_splits)
      obtain i' j' k' where l: "hd ?R = (i', j', k')" by (cases "hd ?R")
      from that have "hd ?R \<in> set ?R" by (rule hd_in_set)
      with R have "matching a b (hd ?R)" by blast
      with l have "0 < k'" "\<forall>t<k'. a ! (i' + t) = b ! (j' + t)"
        by (simp_all add: matching_def)
      then have "a ! (i' + 0) = b ! (j' + 0)" by blast
      moreover from adj l have "i + k = i'" "j + k = j'" by (simp_all add: adjacent_def)
      ultimately have "a ! (i + k) = b ! (j + k)" by simp
      with c mx(3) show False by simp
    qed
    define Lb where "Lb = ?L"
    define Rb where "Rb = ?R"
    from L have L1: "successively (\<lambda>x y. \<not> adjacent x y) Lb"
      unfolding Lb_def by (rule conjunct1)
    from L have L2: "\<forall>m \<in> set Lb. matching a b m"
      unfolding Lb_def by (rule conjunct2)
    from R have R1: "successively (\<lambda>x y. \<not> adjacent x y) Rb"
      unfolding Rb_def by (rule conjunct1)
    from R have R2: "\<forall>m \<in> set Rb. matching a b m"
      unfolding Rb_def by (rule conjunct2)
    have Lx': "Lb \<noteq> [] \<Longrightarrow> \<not> adjacent (last Lb) (i, j, k)"
      unfolding Lb_def by (rule Lx)
    have xR': "Rb \<noteq> [] \<Longrightarrow> \<not> adjacent (i, j, k) (hd Rb)"
      unfolding Rb_def by (rule xR)
    have "successively (\<lambda>x y. \<not> adjacent x y) (Lb @ (i, j, k) # Rb)"
      using L1 R1 Lx' xR' by (rule successively_join)
    moreover have "\<forall>m \<in> set (Lb @ (i, j, k) # Rb). matching a b m"
      using L2 R2 x by auto
    ultimately show ?thesis unfolding eq Lb_def [symmetric] Rb_def [symmetric] by blast
  qed
qed

subsection \<open>The opcodes are those of the specification\<close>

definition gap :: "nat \<Rightarrow> nat \<Rightarrow> nat \<Rightarrow> nat \<Rightarrow> opcode list" where
  "gap i j ai bj =
     (if i < ai \<and> j < bj then [(Replace, i, ai, j, bj)]
      else if i < ai then [(Delete, i, ai, j, bj)]
      else if j < bj then [(Insert, i, ai, j, bj)]
      else [])"

definition equal_op :: "nat \<Rightarrow> nat \<Rightarrow> nat \<Rightarrow> opcode list" where
  "equal_op ai bj sz = (if sz \<noteq> 0 then [(Equal, ai, ai + sz, bj, bj + sz)] else [])"

lemma opcode_step_gap:
  "opcode_step (i, j, ans) (ai, bj, sz) =
   (ai + sz, bj + sz, ans @ gap i j ai bj @ equal_op ai bj sz)"
  by (simp add: opcode_step_def Let_def gap_def equal_op_def)

lemma spec_align_leaf:
  "spec_longest_block a b alo ahi blo bhi = (i, j, 0) \<Longrightarrow>
   spec_align a b (alo, ahi, blo, bhi) = gap alo blo ahi bhi"
  by (subst spec_align.simps) (simp add: gap_def)

lemma spec_longest_block_empty:
  "\<not> (alo < ahi \<and> blo < bhi) \<Longrightarrow> spec_longest_block a b alo ahi blo bhi = (alo, blo, 0)"
proof -
  assume "\<not> (alo < ahi \<and> blo < bhi)"
  then have "set (List.product [alo..<ahi] [blo..<bhi]) = {}" by auto
  then have "List.product [alo..<ahi] [blo..<bhi] = []" by (simp only: set_empty)
  then show ?thesis by (simp add: spec_longest_block_def)
qed

lemma opcode_fold_spec:
  assumes np: "\<And>x. \<not> popular b x"
  shows "ahi \<le> length a \<Longrightarrow> bhi \<le> length b \<Longrightarrow> alo \<le> ahi \<Longrightarrow> blo \<le> bhi \<Longrightarrow>
    foldl opcode_step (alo, blo, ans)
      (rec_blocks a b (chain_b b) (alo, ahi, blo, bhi) @ [(ahi, bhi, sz)]) =
    (ahi + sz, bhi + sz, ans @ spec_align a b (alo, ahi, blo, bhi) @ equal_op ahi bhi sz)"
proof (induction "window_weight (alo, ahi, blo, bhi)" arbitrary: alo ahi blo bhi ans sz
    rule: less_induct)
  case less
  let ?b2j = "chain_b b"
  obtain i j k where f: "find_longest_match a b ?b2j alo ahi blo bhi = (i, j, k)"
    by (cases "find_longest_match a b ?b2j alo ahi blo bhi")
  from find_longest_match_spec [OF np less.prems(1,2), of alo blo] f
  have sp: "spec_longest_block a b alo ahi blo bhi = (i, j, k)" by simp
  show ?case
  proof (cases "k = 0")
    case True
    with f have "rec_blocks a b ?b2j (alo, ahi, blo, bhi) = []"
      by (subst rec_blocks.simps) simp
    moreover from sp True have "spec_align a b (alo, ahi, blo, bhi) = gap alo blo ahi bhi"
      by (simp add: spec_align_leaf)
    ultimately show ?thesis by (simp add: opcode_step_gap)
  next
    case nz: False
    have "best_ok alo ahi blo bhi (i, j, k)"
      using find_longest_match_ok [of alo ahi blo bhi a b ?b2j] by (simp add: f)
    with nz have bnd: "alo \<le> i" "i + k \<le> ahi" "blo \<le> j" "j + k \<le> bhi"
      by (auto simp: best_ok_def)
    define Lb where "Lb = (if alo < i \<and> blo < j then rec_blocks a b ?b2j (alo, i, blo, j) else [])"
    define Rb where "Rb = (if i + k < ahi \<and> j + k < bhi
                           then rec_blocks a b ?b2j (i + k, ahi, j + k, bhi) else [])"
    have eq: "rec_blocks a b ?b2j (alo, ahi, blo, bhi) = Lb @ (i, j, k) # Rb"
      using f nz unfolding Lb_def Rb_def by (subst rec_blocks.simps) simp
    have sa: "spec_align a b (alo, ahi, blo, bhi) =
              spec_align a b (alo, i, blo, j) @ [(Equal, i, i + k, j, j + k)] @
              spec_align a b (i + k, ahi, j + k, bhi)"
      using sp nz by (subst spec_align.simps) simp
    have 1: "foldl opcode_step (alo, blo, ans) (Lb @ [(i, j, k)]) =
             (i + k, j + k, ans @ spec_align a b (alo, i, blo, j) @ equal_op i j k)"
    proof (cases "alo < i \<and> blo < j")
      case True
      then have Lb: "Lb = rec_blocks a b ?b2j (alo, i, blo, j)" by (simp add: Lb_def)
      from bnd less.prems have "i \<le> length a" "j \<le> length b" by simp_all
      moreover from bnd nz have "window_weight (alo, i, blo, j) < window_weight (alo, ahi, blo, bhi)"
        by (simp add: window_weight_def)
      ultimately show ?thesis
        unfolding Lb using bnd by (intro less.hyps) simp_all
    next
      case False
      then have Lb: "Lb = []" by (auto simp: Lb_def)
      from spec_longest_block_empty [OF False]
      have "spec_align a b (alo, i, blo, j) = gap alo blo i j"
        by (rule spec_align_leaf)
      then show ?thesis by (simp add: Lb opcode_step_gap)
    qed
    have 2: "foldl opcode_step (i + k, j + k, ans') (Rb @ [(ahi, bhi, sz)]) =
             (ahi + sz, bhi + sz, ans' @ spec_align a b (i + k, ahi, j + k, bhi) @
                equal_op ahi bhi sz)" for ans'
    proof (cases "i + k < ahi \<and> j + k < bhi")
      case True
      then have Rb: "Rb = rec_blocks a b ?b2j (i + k, ahi, j + k, bhi)" by (simp add: Rb_def)
      from bnd nz have "window_weight (i + k, ahi, j + k, bhi) < window_weight (alo, ahi, blo, bhi)"
        by (simp add: window_weight_def)
      then show ?thesis
        unfolding Rb using bnd less.prems by (intro less.hyps) simp_all
    next
      case False
      then have Rb: "Rb = []" by (auto simp: Rb_def)
      from spec_longest_block_empty [OF False]
      have "spec_align a b (i + k, ahi, j + k, bhi) = gap (i + k) (j + k) ahi bhi"
        by (rule spec_align_leaf)
      then show ?thesis by (simp add: Rb opcode_step_gap)
    qed
    have "foldl opcode_step (alo, blo, ans) ((Lb @ (i, j, k) # Rb) @ [(ahi, bhi, sz)]) =
          foldl opcode_step (foldl opcode_step (alo, blo, ans) (Lb @ [(i, j, k)]))
            (Rb @ [(ahi, bhi, sz)])"
      by simp
    also have "\<dots> = (ahi + sz, bhi + sz,
        (ans @ spec_align a b (alo, i, blo, j) @ equal_op i j k) @
        spec_align a b (i + k, ahi, j + k, bhi) @ equal_op ahi bhi sz)"
      unfolding 1 by (rule 2)
    finally show ?thesis
      using nz by (simp add: eq sa equal_op_def)
  qed
qed

text \<open>
  \<open>autojunk\<close> purges nothing when \<open>b\<close> has fewer than 200 elements, or when none of its
  elements occurs more than \<open>len(b) // 100 + 1\<close> times.
\<close>

definition autojunk_idle :: "'a list \<Rightarrow> bool" where
  "autojunk_idle b \<longleftrightarrow>
     length b < 200 \<or> (\<forall>x \<in> set b. count_list b x \<le> length b div 100 + 1)"

lemma length_positions: "length (positions x b) = count_list b x"
  by (induction b rule: rev_induct) (simp_all add: positions_Nil positions_snoc)

lemma idle_not_popular: "autojunk_idle b \<Longrightarrow> \<not> popular b x"
proof (cases "x \<in> set b")
  case True
  assume "autojunk_idle b"
  with True show ?thesis
    by (auto simp: autojunk_idle_def popular_def length_positions)
next
  case False
  then show ?thesis by (simp add: popular_def positions_notin)
qed

lemma get_opcodes_spec:
  assumes "autojunk_idle b"
  shows "get_opcodes a b = spec_opcodes a b"
proof -
  have np: "\<not> popular b x" for x using assms by (rule idle_not_popular)
  let ?bs = "rec_blocks a b (chain_b b) (0, length a, 0, length b)"
  from rec_blocks_apart [OF np, of "length a" a "length b" 0 0]
  have "successively (\<lambda>x y. \<not> adjacent x y) ?bs" "\<forall>m \<in> set ?bs. 0 < snd (snd m)"
    by (auto simp: matching_def)
  then have c: "collapse ?bs = ?bs" by (rule collapse_apart)
  from opcode_fold_spec [OF np, of "length a" a "length b" 0 0 "[]" 0]
  have "foldl opcode_step (0, 0, []) (?bs @ [(length a, length b, 0)]) =
        (length a, length b, spec_align a b (0, length a, 0, length b))"
    by (simp add: equal_op_def)
  then show ?thesis
    by (simp add: get_opcodes_def get_matching_blocks_def Let_def sort_match_loop c
        spec_opcodes_def)
qed

lemma spec_finds_block:
  assumes "ahi \<le> length a" "bhi \<le> length b" "alo \<le> i" "i < ahi" "blo \<le> j" "j < bhi"
    and "a ! i = b ! j"
  shows "0 < snd (snd (spec_longest_block a b alo ahi blo bhi))"
proof -
  let ?cs = "List.product [alo..<ahi] [blo..<bhi]"
  let ?vS = "block_len a b ahi bhi"
  let ?mS = "\<lambda>c. (fst c, snd c, block_len a b ahi bhi c)"
  have srt: "sorted_wrt (<) ?cs" by (intro sorted_product) simp_all
  have "1 \<le> ?vS (i, j)"
    using assms by (intro block_len_ge) simp_all
  moreover have "(i, j) \<in> set ?cs" using assms by simp
  ultimately have "\<not> (\<forall>c \<in> set ?cs. ?vS c \<le> snd (snd (alo, blo, 0::nat)))"
    by force
  with first_longest [of ?mS ?vS ?cs "(alo, blo, 0)", OF _ srt]
  show ?thesis
    by (auto simp: spec_longest_block_def spec_better_keep)
qed

text \<open>
  C2 (as amended). When \<open>autojunk\<close> purges nothing (the right sequence has fewer than 200
  tokens, or none of its tokens occurs more than \<open>len // 100 + 1\<close> times), the opcodes are
  those of the specification's algorithm: recursively the longest matching block of the
  window, ties going to the earliest start on the left and then on the right, and one
  Replace, Delete or Insert for a window without a matching block.
\<close>

theorem aligner_follows_spec:
  "autojunk_idle b \<Longrightarrow> get_opcodes a b = spec_opcodes a b"
  by (rule get_opcodes_spec)

theorem aligner_follows_spec_witness:
  "autojunk_idle [py ''B''] \<and>
   get_opcodes [py ''A'', py ''B''] [py ''B''] = spec_opcodes [py ''A'', py ''B''] [py ''B'']"
proof -
  have i: "autojunk_idle [py ''B'']" by (simp add: autojunk_idle_def)
  from aligner_follows_spec [OF i, of "[py ''A'', py ''B'']"] i show ?thesis by simp
qed

text \<open>
  With 200 tokens on the right, all of them \<open>x\<close>, the token \<open>x\<close> is purged from \<open>b2j\<close>:
  the aligner returns one Replace for \<open>[y, x]\<close>, although the window has a matching block
  (the specification's algorithm finds it and returns an Equal opcode).
\<close>

theorem aligner_autojunk_counterexample:
  "get_opcodes [py ''y'', py ''x''] (replicate 200 (py ''x'')) = [(Replace, 0, 2, 0, 200)] \<and>
   spec_opcodes [py ''y'', py ''x''] (replicate 200 (py ''x'')) \<noteq> [(Replace, 0, 2, 0, 200)]"
proof -
  let ?a = "[py ''y'', py ''x'']"
  let ?b = "replicate 200 (py ''x'')"
  have g: "get_opcodes ?a ?b = [(Replace, 0, 2, 0, 200)]"
    by code_simp
  obtain i j k where sp: "spec_longest_block ?a ?b 0 (length ?a) 0 (length ?b) = (i, j, k)"
    by (cases "spec_longest_block ?a ?b 0 (length ?a) 0 (length ?b)")
  have "?a ! 1 = ?b ! 0" by simp
  then have "0 < snd (snd (spec_longest_block ?a ?b 0 (length ?a) 0 (length ?b)))"
    by (intro spec_finds_block [where i = 1 and j = 0]) simp_all
  with sp have k: "1 \<le> k" by simp
  have "spec_opcodes ?a ?b =
        spec_align ?a ?b (0, i, 0, j) @ [(Equal, i, i + k, j, j + k)] @
        spec_align ?a ?b (i + k, length ?a, j + k, length ?b)"
    unfolding spec_opcodes_def using sp k by (subst spec_align.simps) simp
  then have "(Equal, i, i + k, j, j + k) \<in> set (spec_opcodes ?a ?b)" by simp
  then have "spec_opcodes ?a ?b \<noteq> [(Replace, 0, 2, 0, 200)]" by auto
  with g show ?thesis by simp
qed

section \<open>The COMPARE\_PDF job (worker.py, \<open>worker_loop\<close>) and its routes\<close>

text \<open>
  The job runs inside \<open>try: ... except Exception as e: job.status = FAILED; job.error =
  str(e)\<close>. What the job reads from outside is given by an environment: whether
  \<open>pdfplumber\<close> and \<open>reportlab\<close> can be imported, what text and word extraction return for
  the two inputs (the extracted pages, or the message of the exception raised), and
  whether drawing the highlights into a document raises. Writing a file is taken to
  succeed. Files written stay on disk when a later step raises, so the job returns the
  files written (path and content, in order) next to the job record: the JSON report,
  the blocks of the text report, a document with its highlights, the archive with the
  names of its entries. The download name (\<open>output_filename\<close>) is left out.
\<close>

datatype job_status = PENDING | PROCESSING | COMPLETED | FAILED

datatype param_value = PStr string | PList "string list"

record job =
  status :: job_status
  output_path :: string
  params :: "(string \<times> param_value) list option"
  error :: "string option"

record 'c env =
  deps_ok :: bool
  text1 :: "string + pystr option list"
  text2 :: "string + pystr option list"
  words1 :: "string + 'c word list list"
  words2 :: "string + 'c word list list"
  render_left :: "string option"
  render_right :: "string option"

datatype 'c content =
    Json report
  | Txt "(nat \<times> string \<times> pystr) list"
  | Pdf "'c highlights list"
  | Zip "string list"

definition dirname :: "string \<Rightarrow> string" where
  \<comment> \<open>\<open>os.path.dirname\<close> (posixpath)\<close>
  "dirname p =
     (let head = rev (dropWhile (\<lambda>c. c \<noteq> CHR ''/'') (rev p))
      in if head \<noteq> [] \<and> \<not> list_all (\<lambda>c. c = CHR ''/'') head
         then rev (dropWhile (\<lambda>c. c = CHR ''/'') (rev head))
         else head)"

definition path_join :: "string \<Rightarrow> string \<Rightarrow> string" where
  \<comment> \<open>\<open>os.path.join(a, b)\<close> (posixpath)\<close>
  "path_join a b =
     (if b \<noteq> [] \<and> hd b = CHR ''/'' then b
      else if a = [] \<or> last a = CHR ''/'' then a @ b
      else a @ ''/'' @ b)"

text \<open>
  The body of the branch, in the order of the source: the import check, the two text
  extractions, the change list and the two report files, the two word extractions and
  the highlights, the two highlighted documents, the archive, and last the new
  \<open>output_path\<close> and the three entries of \<open>params\<close>. The result is the list of files
  written and either the message of the exception or the job.
\<close>

definition compare_body ::
  "'c env \<Rightarrow> job \<Rightarrow> (string \<times> 'c content) list \<times> (string + job)" where
  "compare_body env job =
     (let base_dir = dirname (output_path job);
          left_pdf_path = path_join base_dir ''left.pdf'';
          right_pdf_path = path_join base_dir ''right.pdf'';
          report_json_path = path_join base_dir ''report.json'';
          report_txt_path = path_join base_dir ''report.txt''
      in
      if \<not> deps_ok env
      then ([], Inl ''Compare PDF requires pdfplumber and reportlab. Install: pip install pdfplumber reportlab'')
      else
        (case text1 env of
           Inl e \<Rightarrow> ([], Inl e)
         | Inr pdf1 \<Rightarrow>
             (case text2 env of
           Inl e \<Rightarrow> ([], Inl e)
         | Inr pdf2 \<Rightarrow>
             (let chgs = compare_changes pdf1 pdf2;
                  written = [(report_json_path, Json (build_report chgs)),
                             (report_txt_path, Txt (report_txt_blocks chgs))] in
             (case words1 env of
               Inl e \<Rightarrow> (written, Inl e)
             | Inr w1 \<Rightarrow>
                 (case words2 env of
               Inl e \<Rightarrow> (written, Inl e)
             | Inr w2 \<Rightarrow>
                 (case render_left env of
               Some e \<Rightarrow> (written, Inl e)
             | None \<Rightarrow>
                 (case render_right env of
               Some e \<Rightarrow> (written @ [(left_pdf_path, Pdf (fst (word_diff w1 w2)))], Inl e)
             | None \<Rightarrow>
                 (let zip_path = path_join base_dir ''compare_result.zip'';
                  ps = (case params job of None \<Rightarrow> [] | Some d \<Rightarrow> d);
                  ps = AList.update ''left_pdf'' (PStr left_pdf_path) ps;
                  ps = AList.update ''right_pdf'' (PStr right_pdf_path) ps;
                  ps = AList.update ''report_path'' (PStr report_json_path) ps
              in (written @
                    [(left_pdf_path, Pdf (fst (word_diff w1 w2))),
                     (right_pdf_path, Pdf (snd (word_diff w1 w2))),
                     (zip_path, Zip [''report.json'', ''report.txt'', ''left.pdf'', ''right.pdf''])],
                  Inr (job\<lparr>output_path := zip_path, params := Some ps\<rparr>)))))))))))"

definition run_compare :: "'c env \<Rightarrow> job \<Rightarrow> job \<times> (string \<times> 'c content) list" where
  \<comment> \<open>one round of \<open>worker_loop\<close> for a COMPARE\_PDF job\<close>
  "run_compare env job =
     (let job = job\<lparr>status := PROCESSING\<rparr> in
      case compare_body env job of
        (written, Inl e) \<Rightarrow> (job\<lparr>status := FAILED, error := Some e\<rparr>, written)
      | (written, Inr job') \<Rightarrow> (job'\<lparr>status := COMPLETED\<rparr>, written))"

text \<open>
  The routes that hand results to the caller (compare.py, download.py):
  \<^verbatim>\<open>
  def _get_compare_job(job_id):
      ...
      if job.status != JobStatus.COMPLETED:
          raise HTTPException(status_code=400, detail="Compare not ready yet")
      return job

  def compare_serve_report(job_id):
      job = _get_compare_job(job_id)
      path = (job.params or {}).get("report_path")
      if not path or not Path(path).is_file():
          raise HTTPException(status_code=404, detail="Report not found")
      ...
  def _get_completed_job_response(job_id, disposition):
      ...
      if not job or job.status != JobStatus.COMPLETED:
          raise HTTPException(status_code=400, detail="File not ready")
      return FileResponse(job.output_path, ...)
  \<close>
  for a job that is in the store and is a compare job.
\<close>

datatype response = Http400 | Http404 | Served string

definition serve_param :: "string \<Rightarrow> job \<times> (string \<times> 'c content) list \<Rightarrow> response" where
  \<comment> \<open>\<open>compare_serve_left\<close>, \<open>compare_serve_right\<close> and \<open>compare_serve_report\<close>, with the key
      \<open>left_pdf\<close>, \<open>right_pdf\<close> or \<open>report_path\<close>; the second component lists the files on
      disk\<close>
  "serve_param key st =
     (case st of (job, files) \<Rightarrow>
        if status job \<noteq> COMPLETED then Http400
        else
          (case map_of (case params job of None \<Rightarrow> [] | Some d \<Rightarrow> d) key of
             Some (PStr path) \<Rightarrow> if path \<noteq> [] \<and> path \<in> fst ` set files then Served path else Http404
           | _ \<Rightarrow> Http404))"

definition download :: "job \<times> (string \<times> 'c content) list \<Rightarrow> response" where
  "download st =
     (case st of (job, files) \<Rightarrow>
        if status job \<noteq> COMPLETED then Http400 else Served (output_path job))"

section \<open>Failed extraction\<close>

definition text_extraction_fails :: "'c env \<Rightarrow> string \<Rightarrow> bool" where
  \<comment> \<open>text extraction raises \<open>e\<close> for the first document, or for the second after the first
      went through\<close>
  "text_extraction_fails env e \<longleftrightarrow>
     deps_ok env \<and>
     (case text1 env of Inl e' \<Rightarrow> e' = e | Inr pdf1 \<Rightarrow> text2 env = Inl e)"

definition word_extraction_fails :: "'c env \<Rightarrow> string \<Rightarrow> bool" where
  \<comment> \<open>both texts are extracted, then word extraction raises \<open>e\<close> for the first document,
      or for the second after the first went through\<close>
  "word_extraction_fails env e \<longleftrightarrow>
     deps_ok env \<and>
     (case text1 env of
        Inl e' \<Rightarrow> False
      | Inr pdf1 \<Rightarrow>
          (case text2 env of
             Inl e' \<Rightarrow> False
           | Inr pdf2 \<Rightarrow>
               (case words1 env of Inl e' \<Rightarrow> e' = e | Inr w1 \<Rightarrow> words2 env = Inl e)))"

lemma text_failure:
  "text_extraction_fails env e \<Longrightarrow>
   run_compare env job = (job\<lparr>status := FAILED, error := Some e\<rparr>, [])"
  by (auto simp: text_extraction_fails_def run_compare_def compare_body_def Let_def
      split: sum.splits)

lemma word_failure:
  "word_extraction_fails env e \<Longrightarrow>
   fst (run_compare env job) = job\<lparr>status := FAILED, error := Some e\<rparr> \<and>
   map fst (snd (run_compare env job)) =
     [path_join (dirname (output_path job)) ''report.json'',
      path_join (dirname (output_path job)) ''report.txt'']"
  by (auto simp: word_extraction_fails_def run_compare_def compare_body_def Let_def
      split: sum.splits)

lemma failed_not_served:
  "status (fst st) = FAILED \<Longrightarrow> serve_param key st = Http400 \<and> download st = Http400"
  by (cases st) (simp add: serve_param_def download_def)

text \<open>
  C8 (as amended). If text extraction fails for either document, the job ends FAILED
  with the exception's message as its error and no file is written. If word extraction
  fails, the job ends FAILED in the same way, with \<open>report.json\<close> and \<open>report.txt\<close> already
  written. In both cases the caller gets neither report nor highlighted document nor
  archive: the compare routes and the download route answer 400.
\<close>

theorem extraction_failure_fatal:
  "(text_extraction_fails env e \<longrightarrow>
      run_compare env job = (job\<lparr>status := FAILED, error := Some e\<rparr>, [])) \<and>
   (word_extraction_fails env e \<longrightarrow>
      fst (run_compare env job) = job\<lparr>status := FAILED, error := Some e\<rparr> \<and>
      map fst (snd (run_compare env job)) =
        [path_join (dirname (output_path job)) ''report.json'',
         path_join (dirname (output_path job)) ''report.txt'']) \<and>
   (text_extraction_fails env e \<or> word_extraction_fails env e \<longrightarrow>
      serve_param key (run_compare env job) = Http400 \<and>
      download (run_compare env job) = Http400)"
proof -
  have "status (fst (run_compare env job)) = FAILED"
    if "text_extraction_fails env e \<or> word_extraction_fails env e"
    using that text_failure [of env e job] word_failure [of env e job] by auto
  then have "serve_param key (run_compare env job) = Http400 \<and>
             download (run_compare env job) = Http400"
    if "text_extraction_fails env e \<or> word_extraction_fails env e"
    using that by (intro failed_not_served) simp
  then show ?thesis
    using text_failure [of env e job] word_failure [of env e job]
    by blast
qed

definition example_job :: job where
  "example_job =
     \<lparr>status = PENDING, output_path = ''/tmp/pdf-jobs/j/compare_result.zip'',
      params = Some [(''input_filenames'', PList [''a.pdf'', ''b.pdf''])], error = None\<rparr>"

definition text_fails_env :: "nat env" where
  "text_fails_env =
     \<lparr>deps_ok = True, text1 = Inr [Some (py ''A'')], text2 = Inl ''no text'',
      words1 = Inr [[]], words2 = Inr [[]], render_left = None, render_right = None\<rparr>"

definition words_fail_env :: "nat env" where
  "words_fail_env =
     \<lparr>deps_ok = True, text1 = Inr [Some (py ''A'')], text2 = Inr [Some (py ''B'')],
      words1 = Inl ''no words'', words2 = Inr [[]], render_left = None, render_right = None\<rparr>"

theorem extraction_failure_fatal_witness:
  "text_extraction_fails text_fails_env ''no text'' \<and>
   run_compare text_fails_env example_job =
     (example_job\<lparr>status := FAILED, error := Some ''no text''\<rparr>, []) \<and>
   word_extraction_fails words_fail_env ''no words'' \<and>
   map fst (snd (run_compare words_fail_env example_job)) =
     [''/tmp/pdf-jobs/j/report.json'', ''/tmp/pdf-jobs/j/report.txt''] \<and>
   serve_param ''report_path'' (run_compare words_fail_env example_job) = Http400 \<and>
   download (run_compare words_fail_env example_job) = Http400"
proof -
  have t: "text_extraction_fails text_fails_env ''no text''"
    by (simp add: text_extraction_fails_def text_fails_env_def)
  have w: "word_extraction_fails words_fail_env ''no words''"
    by (simp add: word_extraction_fails_def words_fail_env_def)
  have d: "path_join (dirname (output_path example_job)) ''report.json'' =
             ''/tmp/pdf-jobs/j/report.json''"
    "path_join (dirname (output_path example_job)) ''report.txt'' =
             ''/tmp/pdf-jobs/j/report.txt''"
    by (simp_all add: example_job_def dirname_def path_join_def)
  from extraction_failure_fatal [of text_fails_env "''no text''" example_job "''report_path''"]
    extraction_failure_fatal [of words_fail_env "''no words''" example_job "''report_path''"]
    t w d
  show ?thesis by simp
qed

text \<open>
  The claim as stated fails when word extraction fails: the two report files are
  written before the words are extracted, and stay.
\<close>

theorem extraction_failure_counterexample:
  "word_extraction_fails words_fail_env ''no words'' \<and>
   map fst (snd (run_compare words_fail_env example_job)) =
     [''/tmp/pdf-jobs/j/report.json'', ''/tmp/pdf-jobs/j/report.txt''] \<and>
   snd (run_compare words_fail_env example_job) \<noteq> []"
proof -
  have w: "word_extraction_fails words_fail_env ''no words''"
    by (simp add: word_extraction_fails_def words_fail_env_def)
  have d: "path_join (dirname (output_path example_job)) ''report.json'' =
             ''/tmp/pdf-jobs/j/report.json''"
    "path_join (dirname (output_path example_job)) ''report.txt'' =
             ''/tmp/pdf-jobs/j/report.txt''"
    by (simp_all add: example_job_def dirname_def path_join_def)
  from word_failure [OF w, of example_job] d
  have "map fst (snd (run_compare words_fail_env example_job)) =
     [''/tmp/pdf-jobs/j/report.json'', ''/tmp/pdf-jobs/j/report.txt'']"
    by simp
  moreover from this have "snd (run_compare words_fail_env example_job) \<noteq> []" by auto
  ultimately show ?thesis using w by simp
qed

end
